theory Spec2Isabelle
  imports Complex_Main "HOL-Library.Word" "HOL-Library.Monad_Syntax"
begin

unbundle bit_operations_syntax

section \<open>BitVector (src/storage/BitVector.cpp)\<close>

text \<open>
  A bit vector is a bit count together with a vector of 64-bit buckets. Bit \<open>i\<close> of the
  vector lives in bucket \<open>i >> 6\<close> at word position \<open>63 - (i & mod64mask)\<close>: the first bit
  of a bucket is its most significant one, so the unused positions of the last bucket are
  its low-order bits.

  Modelling conventions.
  \<^item> Buckets are \<open>64 word\<close>; \<open>uint64_t\<close> arithmetic wraps, and so does the signed
    \<open>1ll\<close> arithmetic of \<open>truncateLastBucket\<close> (two's complement).
  \<^item> Bit counts, indices and bucket numbers are \<open>nat\<close>: \<open>i >> 6\<close> is \<open>i div 64\<close> and
    \<open>i & mod64mask\<close> is \<open>i mod 64\<close> (\<open>mod64mask\<close> is 63). A vector never holds
    \<open>2^58\<close> buckets, so no index computation of the source overflows, with one exception
    that is written out: \<open>bucketVector.size() - 1\<close> in \<open>full\<close> on an empty vector.
  \<^item> Operations return \<open>option\<close>. \<open>None\<close> stands for every way the C++ leaves the
    defined behaviour: a failed \<open>STORM_LOG_ASSERT\<close>, an element access outside the
    bucket vector (\<open>operator[]\<close>, \<open>back()\<close> on an empty vector, a dereferenced iterator
    past the end), and a shift by 64 or more positions.
\<close>

type_synonym u64 = "64 word"

record BitVector =
  bitCount :: nat
  bucketVector :: "u64 list"

definition mod64mask :: nat where
  "mod64mask = 63"

text \<open>\<open>1ull << k\<close>, undefined for \<open>k \<ge> 64\<close>.\<close>

definition shl1 :: "nat \<Rightarrow> u64 option" where
  "shl1 k = (if k < 64 then Some (push_bit k 1) else None)"

text \<open>\<open>(1ull << k) - 1ull\<close>: the mask of the \<open>k\<close> low-order positions.\<close>

definition lowMask :: "nat \<Rightarrow> u64 option" where
  "lowMask k = map_option (\<lambda>s. s - 1) (shl1 k)"

text \<open>\<open>bucketVector.back() = f (bucketVector.back())\<close>.\<close>

definition updateBack :: "(u64 \<Rightarrow> u64) \<Rightarrow> u64 list \<Rightarrow> u64 list option" where
  "updateBack f bs = (if bs = [] then None else Some (butlast bs @ [f (last bs)]))"

definition truncateLastBucket :: "BitVector \<Rightarrow> BitVector option" where
  "truncateLastBucket bv =
     (if bitCount bv mod 64 \<noteq> 0 then
        do {
          m \<leftarrow> lowMask (64 - bitCount bv mod 64);
          bs \<leftarrow> updateBack (\<lambda>w. w AND NOT m) (bucketVector bv);
          Some (bv\<lparr>bucketVector := bs\<rparr>)
        }
      else Some bv)"

text \<open>The number of buckets for \<open>length\<close> bits, as both the constructor and \<open>resize\<close>
  compute it.\<close>

definition bucketCountFor :: "nat \<Rightarrow> nat" where
  "bucketCountFor len = (if len mod 64 \<noteq> 0 then len div 64 + 1 else len div 64)"

text \<open>\<open>BitVector(length, init)\<close>.\<close>

definition BitVector_new :: "nat \<Rightarrow> bool \<Rightarrow> BitVector option" where
  "BitVector_new len init =
     (if init then
        truncateLastBucket \<lparr>bitCount = len, bucketVector = replicate (bucketCountFor len) (- 1)\<rparr>
      else Some \<lparr>bitCount = len, bucketVector = replicate (bucketCountFor len) 0\<rparr>)"

text \<open>\<open>operator[]\<close>: no range check on the index beyond the vector's own.\<close>

definition bv_at :: "BitVector \<Rightarrow> nat \<Rightarrow> bool option" where
  "bv_at bv index =
     (let bucket = index div 64; mask = push_bit (63 - index mod 64) (1 :: u64) in
      if bucket < length (bucketVector bv)
      then Some ((bucketVector bv ! bucket) AND mask = mask)
      else None)"

text \<open>\<open>get(index)\<close>: asserts the index.\<close>

definition bv_get :: "BitVector \<Rightarrow> nat \<Rightarrow> bool option" where
  "bv_get bv index = (if index < bitCount bv then bv_at bv index else None)"

text \<open>\<open>set(index, value)\<close>.\<close>

definition bv_set :: "BitVector \<Rightarrow> nat \<Rightarrow> bool \<Rightarrow> BitVector option" where
  "bv_set bv index val =
     (if index < bitCount bv then
        (let bucket = index div 64; mask = push_bit (63 - index mod 64) (1 :: u64) in
         if bucket < length (bucketVector bv) then
           Some (bv\<lparr>bucketVector := (bucketVector bv)
                   [bucket := (if val then (bucketVector bv ! bucket) OR mask
                               else (bucketVector bv ! bucket) AND NOT mask)]\<rparr>)
         else None)
      else None)"

text \<open>\<open>resize(newLength, init)\<close>. \<open>std::vector::resize\<close> pads with the given value
  (zero when none is given) or cuts the vector.\<close>

definition vresize :: "nat \<Rightarrow> u64 \<Rightarrow> u64 list \<Rightarrow> u64 list" where
  "vresize n v bs = take n bs @ replicate (n - length bs) v"

definition resize :: "BitVector \<Rightarrow> nat \<Rightarrow> bool \<Rightarrow> BitVector option" where
  "resize bv newLength init =
     (if newLength > bitCount bv then
        (let newBucketCount = bucketCountFor newLength in
         if newBucketCount > length (bucketVector bv) then
           (if init then
              do {
                m \<leftarrow> lowMask (64 - bitCount bv mod 64);
                bs \<leftarrow> updateBack (\<lambda>w. w OR m) (bucketVector bv);
                truncateLastBucket \<lparr>bitCount = newLength, bucketVector = vresize newBucketCount (- 1) bs\<rparr>
              }
            else
              truncateLastBucket
                \<lparr>bitCount = newLength, bucketVector = vresize newBucketCount 0 (bucketVector bv)\<rparr>)
         else
           (if init then
              do {
                m \<leftarrow> lowMask (64 - bitCount bv mod 64);
                bs \<leftarrow> updateBack (\<lambda>w. w OR m) (bucketVector bv);
                truncateLastBucket \<lparr>bitCount = newLength, bucketVector = bs\<rparr>
              }
            else truncateLastBucket \<lparr>bitCount = newLength, bucketVector = bucketVector bv\<rparr>))
      else
        truncateLastBucket
          \<lparr>bitCount = newLength,
           bucketVector = vresize (bucketCountFor newLength) 0 (bucketVector bv)\<rparr>)"

text \<open>The loops of the binary operators walk the result's buckets and read both operands
  at the same position; an operand with fewer buckets is read past its end.\<close>

fun zipBuckets :: "(u64 \<Rightarrow> u64 \<Rightarrow> u64) \<Rightarrow> nat \<Rightarrow> u64 list \<Rightarrow> u64 list \<Rightarrow> u64 list option" where
  "zipBuckets f 0 xs ys = Some []"
| "zipBuckets f (Suc n) (x # xs) (y # ys) = map_option ((#) (f x y)) (zipBuckets f n xs ys)"
| "zipBuckets f (Suc n) xs ys = None"

definition binaryOp :: "(u64 \<Rightarrow> u64 \<Rightarrow> u64) \<Rightarrow> BitVector \<Rightarrow> BitVector \<Rightarrow> BitVector option" where
  "binaryOp f a b =
     (if bitCount a = bitCount b then
        do {
          result \<leftarrow> BitVector_new (bitCount a) False;
          bs \<leftarrow> zipBuckets f (length (bucketVector result)) (bucketVector a) (bucketVector b);
          Some (result\<lparr>bucketVector := bs\<rparr>)
        }
      else None)"


definition operator_or :: "BitVector \<Rightarrow> BitVector \<Rightarrow> BitVector option" where
  "operator_or a b = binaryOp (\<lambda>x y. x OR y) a b"

definition operator_xor :: "BitVector \<Rightarrow> BitVector \<Rightarrow> BitVector option" where
  "operator_xor a b = binaryOp (\<lambda>x y. x XOR y) a b \<bind> truncateLastBucket"

definition implies :: "BitVector \<Rightarrow> BitVector \<Rightarrow> BitVector option" where
  "implies a b = binaryOp (\<lambda>x y. NOT x OR y) a b \<bind> truncateLastBucket"

text \<open>The compound assignments stop at the shorter of the two bucket vectors.\<close>

fun zipPrefix :: "(u64 \<Rightarrow> u64 \<Rightarrow> u64) \<Rightarrow> u64 list \<Rightarrow> u64 list \<Rightarrow> u64 list" where
  "zipPrefix f (x # xs) (y # ys) = f x y # zipPrefix f xs ys"
| "zipPrefix f xs ys = xs"

definition operator_and_assign :: "BitVector \<Rightarrow> BitVector \<Rightarrow> BitVector option" where
  "operator_and_assign a b =
     (if bitCount a = bitCount b
      then Some (a\<lparr>bucketVector := zipPrefix (\<lambda>x y. x AND y) (bucketVector a) (bucketVector b)\<rparr>)
      else None)"

definition operator_or_assign :: "BitVector \<Rightarrow> BitVector \<Rightarrow> BitVector option" where
  "operator_or_assign a b =
     (if bitCount a = bitCount b
      then Some (a\<lparr>bucketVector := zipPrefix (\<lambda>x y. x OR y) (bucketVector a) (bucketVector b)\<rparr>)
      else None)"

text \<open>\<open>operator~\<close> builds a fresh vector and reads this one bucket by bucket;
  \<open>complement\<close> works in place.\<close>

fun copyBuckets :: "(u64 \<Rightarrow> u64) \<Rightarrow> nat \<Rightarrow> u64 list \<Rightarrow> u64 list option" where
  "copyBuckets f 0 xs = Some []"
| "copyBuckets f (Suc n) (x # xs) = map_option ((#) (f x)) (copyBuckets f n xs)"
| "copyBuckets f (Suc n) [] = None"

definition operator_not :: "BitVector \<Rightarrow> BitVector option" where
  "operator_not a =
     do {
       result \<leftarrow> BitVector_new (bitCount a) False;
       bs \<leftarrow> copyBuckets (\<lambda>x. NOT x) (length (bucketVector result)) (bucketVector a);
       truncateLastBucket (result\<lparr>bucketVector := bs\<rparr>)
     }"

definition complement :: "BitVector \<Rightarrow> BitVector option" where
  "complement a = truncateLastBucket (a\<lparr>bucketVector := map (\<lambda>x. NOT x) (bucketVector a)\<rparr>)"

text \<open>\<open>operator==\<close>: the lengths first, then bucket by bucket over this vector's buckets.\<close>

fun eqBuckets :: "u64 list \<Rightarrow> u64 list \<Rightarrow> bool option" where
  "eqBuckets [] ys = Some True"
| "eqBuckets (x # xs) [] = None"
| "eqBuckets (x # xs) (y # ys) = (if x \<noteq> y then Some False else eqBuckets xs ys)"

definition operator_eq :: "BitVector \<Rightarrow> BitVector \<Rightarrow> bool option" where
  "operator_eq a b =
     (if bitCount a \<noteq> bitCount b then Some False
      else eqBuckets (bucketVector a) (bucketVector b))"

text \<open>
  \<open>full()\<close>. The first loop runs while \<open>index < bucketVector.size() - 1\<close>, an unsigned
  subtraction: on an empty vector the bound is \<open>2^64 - 1\<close> and the first iteration reads
  \<open>bucketVector[0]\<close>, which does not exist. The mask of the last bucket is
  \<open>~((1ull << (64 - (bitCount & mod64mask))) - 1ull)\<close>, a shift by 64 when the bit count is
  a multiple of 64.
\<close>

definition full :: "BitVector \<Rightarrow> bool option" where
  "full bv =
     (if bucketVector bv = [] then None
      else if list_ex (\<lambda>w. w \<noteq> - 1) (butlast (bucketVector bv)) then Some False
      else
        do {
          m \<leftarrow> lowMask (64 - bitCount bv mod 64);
          Some ((last (bucketVector bv)) AND NOT m = NOT m)
        })"

text \<open>
  The representation invariant: the bucket vector has exactly the buckets the bit count
  needs, and the positions of the last bucket beyond the bit count are zero.
\<close>

definition bv_invariant :: "BitVector \<Rightarrow> bool" where
  "bv_invariant bv =
     (length (bucketVector bv) = bucketCountFor (bitCount bv) \<and>
      (if bitCount bv mod 64 \<noteq> 0
       then take_bit (64 - bitCount bv mod 64) (last (bucketVector bv)) = 0
       else True))"

text \<open>The bit at an index, read off the buckets.\<close>

definition testBit :: "u64 list \<Rightarrow> nat \<Rightarrow> bool" where
  "testBit bs i = bit (bs ! (i div 64)) (63 - i mod 64)"

text \<open>
  \<open>getNumberOfSetBitsBeforeIndex\<close> and \<open>getNumberOfSetBits\<close>. The source is compiled
  with g++ or clang++, where the count of a bucket is \<open>__builtin_popcountll\<close>: the number
  of set positions of the word.
\<close>

definition popcountll :: "u64 \<Rightarrow> nat" where
  "popcountll w = length (filter (bit w) [0..<64])"

definition getNumberOfSetBitsBeforeIndex :: "BitVector \<Rightarrow> nat \<Rightarrow> nat option" where
  "getNumberOfSetBitsBeforeIndex bv index =
     (let bucket = index div 64; bs = bucketVector bv in
      if bucket \<le> length bs then
        (let result = sum_list (map popcountll (take bucket bs)); tmp = index mod 64 in
         if tmp \<noteq> 0 then
           (if bucket < length bs
            then Some (result + popcountll (NOT (push_bit (64 - tmp mod 64) 1 - 1) AND bs ! bucket))
            else None)
         else Some result)
      else None)"

definition getNumberOfSetBits :: "BitVector \<Rightarrow> nat option" where
  "getNumberOfSetBits bv = getNumberOfSetBitsBeforeIndex bv (length (bucketVector bv) * 64)"

text \<open>
  \<open>getNextSetIndex(dataPtr, startingIndex, endIndex)\<close>. The inner loop advances
  \<open>currentBitInByte\<close> until the position \<open>63 - currentBitInByte\<close> of the remaining bucket
  content is set; past position 63 the shift count is negative. The outer loop moves from
  bucket to bucket; \<open>bucketIt\<close> always points at bucket \<open>startingIndex >> 6\<close>.
\<close>

function scanBit :: "u64 \<Rightarrow> nat \<Rightarrow> nat option" where
  "scanBit remainingInBucket currentBitInByte =
     (if 63 < currentBitInByte then None
      else if remainingInBucket AND push_bit (63 - currentBitInByte) 1 = 0
      then scanBit remainingInBucket (Suc currentBitInByte)
      else Some currentBitInByte)"
  by pat_completeness auto
termination
  by (relation "measure (\<lambda>(r, c). 64 - c)") auto

declare scanBit.simps [simp del]

function nextSetLoop :: "u64 list \<Rightarrow> nat \<Rightarrow> nat \<Rightarrow> u64 \<Rightarrow> nat \<Rightarrow> nat option" where
  "nextSetLoop bs startingIndex endIndex msk currentBitInByte =
     (if startingIndex < endIndex then
        (if startingIndex div 64 < length bs then
           (let remainingInBucket = bs ! (startingIndex div 64) AND msk in
            if remainingInBucket \<noteq> 0 then
              map_option
                (\<lambda>c. if startingIndex + c < endIndex then startingIndex + c else endIndex)
                (scanBit remainingInBucket currentBitInByte)
            else nextSetLoop bs (startingIndex + 64) endIndex (- 1) 0)
         else None)
      else Some endIndex)"
  by pat_completeness auto
termination
  by (relation "measure (\<lambda>(bs, s, e, m, c). e - s)") auto

declare nextSetLoop.simps [simp del]

definition getNextSetIndex :: "u64 list \<Rightarrow> nat \<Rightarrow> nat \<Rightarrow> nat option" where
  "getNextSetIndex bs startingIndex endIndex =
     (let currentBitInByte = startingIndex mod 64;
          msk = (if currentBitInByte = 0 then - 1 else push_bit (64 - currentBitInByte) 1 - 1)
      in nextSetLoop bs (startingIndex div 64 * 64) endIndex msk currentBitInByte)"

text \<open>
  What \<open>getNextSetIndex\<close> is meant to return: \<open>r\<close> is the first set position in
  \<open>[s, e)\<close>, or \<open>e\<close> when there is none.
\<close>

definition isNext :: "u64 list \<Rightarrow> nat \<Rightarrow> nat \<Rightarrow> nat \<Rightarrow> bool" where
  "isNext bs s e r =
     (r \<le> e \<and> list_all (\<lambda>j. \<not> testBit bs j) [s..<r] \<and> (if r < e then s \<le> r \<and> testBit bs r else True))"

subsection \<open>Reading bits and finding the next set index\<close>

lemma test_mask_iff:
  assumes "n < 64"
  shows "((w::u64) AND push_bit n 1 = push_bit n 1) \<longleftrightarrow> bit w n"
proof
  assume "w AND push_bit n 1 = push_bit n 1"
  then have "bit (w AND push_bit n 1) n = bit (push_bit n (1::u64)) n" by simp
  then show "bit w n" using assms by (simp add: bit_simps)
next
  assume b: "bit w n"
  show "w AND push_bit n 1 = push_bit n 1"
    by (rule bit_word_eqI) (use b in \<open>auto simp add: bit_simps\<close>)
qed

lemma test_mask0_iff: "((w::u64) AND push_bit n 1 = 0) \<longleftrightarrow> \<not> bit w n"
  using bit_iff_and_push_bit_not_eq_0[of w n] by simp

lemma bv_at_testBit:
  "i div 64 < length (bucketVector bv) \<Longrightarrow> bv_at bv i = Some (testBit (bucketVector bv) i)"
  by (simp add: bv_at_def testBit_def Let_def test_mask_iff del: push_bit_of_1)

lemma scanBit_Some:
  "scanBit r c = Some k \<Longrightarrow> c \<le> k \<and> k \<le> 63 \<and> bit r (63 - k) \<and> (\<forall>j. c \<le> j \<and> j < k \<longrightarrow> \<not> bit r (63 - j))"
proof (induction r c rule: scanBit.induct)
  case (1 r c)
  show ?case
  proof (cases "63 < c")
    case True
    with "1.prems" show ?thesis by (simp add: scanBit.simps[of r c])
  next
    case c63: False
    show ?thesis
    proof (cases "r AND push_bit (63 - c) 1 = 0")
      case True
      then have nb: "\<not> bit r (63 - c)" using test_mask0_iff[of r "63 - c"] by simp
      from True c63 "1.prems" have "scanBit r (Suc c) = Some k"
        by (simp add: scanBit.simps[of r c] del: push_bit_of_1)
      from "1.IH"[OF c63 True this] have ih: "Suc c \<le> k" "k \<le> 63" "bit r (63 - k)"
        "\<forall>j. Suc c \<le> j \<and> j < k \<longrightarrow> \<not> bit r (63 - j)" by auto
      have "\<not> bit r (63 - j)" if "c \<le> j" "j < k" for j
        using that ih(4) nb by (cases "j = c") auto
      with ih show ?thesis by auto
    next
      case False
      then have "bit r (63 - c)" using test_mask0_iff[of r "63 - c"] by simp
      moreover from False c63 "1.prems" have "k = c"
        by (simp add: scanBit.simps[of r c] del: push_bit_of_1)
      ultimately show ?thesis using c63 by auto
    qed
  qed
qed

lemma scanBit_exists:
  "c \<le> k \<Longrightarrow> k \<le> 63 \<Longrightarrow> bit r (63 - k) \<Longrightarrow> \<exists>k'. scanBit r c = Some k'"
proof (induction r c rule: scanBit.induct)
  case (1 r c)
  from "1.prems" have c63: "\<not> 63 < c" by simp
  show ?case
  proof (cases "r AND push_bit (63 - c) 1 = 0")
    case True
    then have nb: "\<not> bit r (63 - c)" using test_mask0_iff[of r "63 - c"] by simp
    with "1.prems" have "Suc c \<le> k" by (cases "c = k") auto
    from "1.IH"[OF c63 True this "1.prems"(2,3)] obtain k' where "scanBit r (Suc c) = Some k'" by blast
    with True c63 show ?thesis by (simp add: scanBit.simps[of r c] del: push_bit_of_1)
  next
    case False
    with c63 show ?thesis by (simp add: scanBit.simps[of r c] del: push_bit_of_1)
  qed
qed

lemma idx_split:
  assumes "s mod 64 = 0" "j < 64"
  shows "(s + j) div 64 = s div 64 \<and> (s + j) mod (64::nat) = j"
proof -
  from assms(1) obtain q where "s = 64 * q" by (auto simp add: mod_eq_0_iff_dvd)
  with assms(2) show ?thesis by simp
qed

lemma testBit_offset:
  "s mod 64 = 0 \<Longrightarrow> j < 64 \<Longrightarrow> testBit bs (s + j) = bit (bs ! (s div 64)) (63 - j)"
  using idx_split[of s j] by (simp add: testBit_def)

lemma isNext_iff:
  "isNext bs s e r \<longleftrightarrow> r \<le> e \<and> (\<forall>j. s \<le> j \<and> j < r \<longrightarrow> \<not> testBit bs j) \<and> (r < e \<longrightarrow> s \<le> r \<and> testBit bs r)"
  by (auto simp add: isNext_def list_all_iff)

lemma word_neq_0_bit: "(w::u64) \<noteq> 0 \<longleftrightarrow> (\<exists>n<64. bit w n)"
proof
  assume "w \<noteq> 0"
  then obtain n where "bit w n" by (auto simp add: bit_eq_iff)
  moreover then have "n < 64" using bit_imp_possible_bit[of w n] by simp
  ultimately show "\<exists>n<64. bit w n" by blast
next
  assume "\<exists>n<64. bit w n"
  then show "w \<noteq> 0" by auto
qed

lemma nextSetLoop_spec:
  assumes "s mod 64 = 0" "c < 64" "e \<le> 64 * length bs" "\<forall>n<64. bit m n \<longleftrightarrow> n < 64 - c"
  shows "\<exists>r. nextSetLoop bs s e m c = Some r \<and> isNext bs (s + c) e r"
  using assms
proof (induction bs s e m c rule: nextSetLoop.induct)
  case (1 bs s e m c)
  show ?case
  proof (cases "s < e")
    case False
    then show ?thesis by (auto simp add: nextSetLoop.simps[of bs s e m c] isNext_iff)
  next
    case se: True
    with "1.prems" have inr: "s div 64 < length bs" by auto
    define w where "w = bs ! (s div 64)"
    have bitrem: "bit (w AND m) n \<longleftrightarrow> bit w n \<and> n < 64 - c" for n
    proof (cases "n < 64")
      case True then show ?thesis using "1.prems"(4) by (simp add: bit_and_iff)
    next
      case False
      then have "\<not> bit (w AND m) n" "\<not> bit w n"
        using bit_imp_possible_bit[of "w AND m" n] bit_imp_possible_bit[of w n] by auto
      then show ?thesis by simp
    qed
    show ?thesis
    proof (cases "w AND m = 0")
      case True
      have none: "\<not> testBit bs j" if "s + c \<le> j" "j < s + 64" for j
      proof -
        define i where "i = j - s"
        have j: "j = s + i" "c \<le> i" "i < 64" using that by (auto simp add: i_def)
        have "\<not> bit (w AND m) (63 - i)" using True by simp
        with bitrem[of "63 - i"] j have "\<not> bit w (63 - i)" by auto
        then show ?thesis using testBit_offset[OF "1.prems"(1) j(3), of bs] j(1) w_def by simp
      qed
      have "\<exists>r. nextSetLoop bs (s + 64) e (- 1) 0 = Some r \<and> isNext bs (s + 64 + 0) e r"
        using "1.IH"[OF se inr refl] True "1.prems" w_def by simp
      then obtain r where r: "nextSetLoop bs (s + 64) e (- 1) 0 = Some r" "isNext bs (s + 64) e r" by auto
      have "nextSetLoop bs s e m c = Some r"
        using se inr True r(1) w_def by (simp add: nextSetLoop.simps[of bs s e m c])
      moreover have "isNext bs (s + c) e r"
      proof -
        from r(2) have a: "r \<le> e" "\<forall>j. s + 64 \<le> j \<and> j < r \<longrightarrow> \<not> testBit bs j"
          "r < e \<longrightarrow> s + 64 \<le> r \<and> testBit bs r" unfolding isNext_iff by auto
        have "\<not> testBit bs j" if "s + c \<le> j" "j < r" for j
          using that none[of j] a(2) by (cases "j < s + 64") auto
        with a "1.prems"(2) show ?thesis unfolding isNext_iff by auto
      qed
      ultimately show ?thesis by blast
    next
      case False
      then obtain n where n: "bit w n" "n < 64 - c" using word_neq_0_bit[of "w AND m"] bitrem by auto
      then have "c \<le> 63 - n" "63 - n \<le> 63" "bit (w AND m) (63 - (63 - n))"
        using bitrem[of n] by auto
      from scanBit_exists[OF this] obtain k where k: "scanBit (w AND m) c = Some k" by blast
      from scanBit_Some[OF k] have kk: "c \<le> k" "k \<le> 63" "bit (w AND m) (63 - k)"
        "\<forall>j. c \<le> j \<and> j < k \<longrightarrow> \<not> bit (w AND m) (63 - j)" by auto
      have tk: "testBit bs (s + k)"
        using testBit_offset[OF "1.prems"(1), of k bs] kk(2,3) bitrem[of "63 - k"] w_def by simp
      have none: "\<not> testBit bs j" if "s + c \<le> j" "j < s + k" for j
      proof -
        define i where "i = j - s"
        have j: "j = s + i" "c \<le> i" "i < k" using that by (auto simp add: i_def)
        have "\<not> bit (w AND m) (63 - i)" using kk(4) j by simp
        with bitrem[of "63 - i"] j kk(2) have "\<not> bit w (63 - i)" by auto
        then show ?thesis using testBit_offset[OF "1.prems"(1), of i bs] j kk(2) w_def by simp
      qed
      define r where "r = (if s + k < e then s + k else e)"
      have "nextSetLoop bs s e m c = Some r"
        using se inr False k w_def r_def by (simp add: nextSetLoop.simps[of bs s e m c])
      moreover have "isNext bs (s + c) e r"
        unfolding isNext_iff r_def using none tk kk(1) by auto
      ultimately show ?thesis by blast
    qed
  qed
qed

lemma bit_lowmask: "0 < c \<Longrightarrow> c < 64 \<Longrightarrow> n < 64 \<Longrightarrow> bit (push_bit (64 - c) 1 - 1 :: u64) n \<longleftrightarrow> n < 64 - c"
  using bit_mask_iff[where ?'a = u64, of "64 - c" n] by (simp add: mask_eq_exp_minus_1)

lemma getNextSetIndex_spec:
  assumes "e \<le> 64 * length bs"
  shows "\<exists>r. getNextSetIndex bs s e = Some r \<and> isNext bs s e r"
proof -
  let ?c = "s mod 64"
  let ?m = "(if ?c = 0 then - 1 else push_bit (64 - ?c) 1 - 1) :: u64"
  have "\<forall>n<64. bit ?m n \<longleftrightarrow> n < 64 - ?c"
    using bit_lowmask[of ?c] by auto
  from nextSetLoop_spec[of "s div 64 * 64" ?c e bs ?m, OF _ _ assms this]
  show ?thesis by (simp add: getNextSetIndex_def Let_def)
qed

lemma nextSetLoop_range:
  "nextSetLoop bs s e m c = Some r \<Longrightarrow> c < 64 \<Longrightarrow> r = e \<or> (s + c \<le> r \<and> r < e)"
proof (induction bs s e m c rule: nextSetLoop.induct)
  case (1 bs s e m c)
  show ?case
  proof (cases "s < e \<and> s div 64 < length bs")
    case False
    with "1.prems" show ?thesis by (auto simp add: nextSetLoop.simps[of bs s e m c] split: if_splits)
  next
    case True
    show ?thesis
    proof (cases "bs ! (s div 64) AND m = 0")
      case z: True
      with True "1.prems" have "nextSetLoop bs (s + 64) e (- 1) 0 = Some r"
        by (simp add: nextSetLoop.simps[of bs s e m c])
      from "1.IH"[OF _ _ refl _ this] True z have "r = e \<or> (s + 64 + 0 \<le> r \<and> r < e)" by simp
      with "1.prems"(2) show ?thesis by auto
    next
      case nz: False
      with True "1.prems" obtain k where k: "scanBit (bs ! (s div 64) AND m) c = Some k"
        "r = (if s + k < e then s + k else e)"
        by (auto simp add: nextSetLoop.simps[of bs s e m c])
      from scanBit_Some[OF k(1)] have "c \<le> k" by simp
      with k(2) show ?thesis by auto
    qed
  qed
qed

lemma getNextSetIndex_range:
  assumes "getNextSetIndex bs s e = Some r"
  shows "r = e \<or> (s \<le> r \<and> r < e)"
proof -
  from assms have "nextSetLoop bs (s div 64 * 64) e
      (if s mod 64 = 0 then - 1 else push_bit (64 - s mod 64) 1 - 1) (s mod 64) = Some r"
    by (simp add: getNextSetIndex_def Let_def)
  from nextSetLoop_range[OF this] show ?thesis by simp
qed

text \<open>
  The range-based \<open>for (auto bit : bv)\<close>: \<open>begin()\<close> is at the first set index,
  \<open>end()\<close> at \<open>bitCount\<close>, \<open>operator++\<close> calls \<open>getNextSetIndex\<close> on the
  incremented index and the loop runs while the two iterators differ. The loop body works
  on a state \<open>s\<close> and may leave the defined behaviour.
\<close>

function forSetBitsFrom :: "BitVector \<Rightarrow> (nat \<Rightarrow> 's \<Rightarrow> 's option) \<Rightarrow> nat \<Rightarrow> 's \<Rightarrow> 's option" where
  "forSetBitsFrom bv body currentIndex s =
     (if currentIndex \<noteq> bitCount bv then
        (case body currentIndex s of
           None \<Rightarrow> None
         | Some s' \<Rightarrow>
             (case getNextSetIndex (bucketVector bv) (Suc currentIndex) (bitCount bv) of
                None \<Rightarrow> None
              | Some nextIndex \<Rightarrow> forSetBitsFrom bv body nextIndex s'))
      else Some s)"
  by pat_completeness auto
termination
proof (relation "measure (\<lambda>(bv, body, i, s). if i \<le> bitCount bv then bitCount bv - i else Suc (bitCount bv))")
  show "wf (measure (\<lambda>(bv, body, i, s). if i \<le> bitCount bv then bitCount bv - i else Suc (bitCount bv)))"
    by simp
next
  fix bv :: BitVector and body :: "nat \<Rightarrow> 's \<Rightarrow> 's option" and currentIndex s x2 x2a
  assume "currentIndex \<noteq> bitCount bv" "getNextSetIndex (bucketVector bv) (Suc currentIndex) (bitCount bv) = Some x2a"
  from getNextSetIndex_range[OF this(2)] this(1)
  show "((bv, body, x2a, x2), bv, body, currentIndex, s)
       \<in> measure (\<lambda>(bv, body, i, s). if i \<le> bitCount bv then bitCount bv - i else Suc (bitCount bv))"
    by auto
qed

declare forSetBitsFrom.simps [simp del]

definition forSetBits :: "BitVector \<Rightarrow> (nat \<Rightarrow> 's \<Rightarrow> 's option) \<Rightarrow> 's \<Rightarrow> 's option" where
  "forSetBits bv body s =
     do {
       first \<leftarrow> getNextSetIndex (bucketVector bv) 0 (bitCount bv);
       forSetBitsFrom bv body first s
     }"

text \<open>
  \<open>operator%\<close>. The result has one position per set bit of the filter. The first branch
  walks the set bits of the filter and counts positions; the second walks the set bits of
  this vector and asks the filter for the number of set bits before each of them.
\<close>

definition modOverFilter :: "BitVector \<Rightarrow> BitVector \<Rightarrow> BitVector \<Rightarrow> BitVector option" where
  "modOverFilter self filt result =
     map_option fst
       (forSetBits filt
          (\<lambda>bit (result, position).
             do {
               b \<leftarrow> bv_at self bit;
               result' \<leftarrow> (if b then bv_set result position True else Some result);
               Some (result', position + 1)
             })
          (result, 0))"

definition modOverThis :: "BitVector \<Rightarrow> BitVector \<Rightarrow> BitVector \<Rightarrow> BitVector option" where
  "modOverThis self filt result =
     forSetBits self
       (\<lambda>bit result.
          do {
            f \<leftarrow> bv_at filt bit;
            if f then
              do {
                k \<leftarrow> getNumberOfSetBitsBeforeIndex filt bit;
                bv_set result k True
              }
            else Some result
          })
       result"

definition operator_mod :: "BitVector \<Rightarrow> BitVector \<Rightarrow> BitVector option" where
  "operator_mod self filt =
     (if bitCount self = bitCount filt then
        do {
          n \<leftarrow> getNumberOfSetBits filt;
          result \<leftarrow> BitVector_new n False;
          nFilter \<leftarrow> getNumberOfSetBits filt;
          nThis \<leftarrow> getNumberOfSetBits self;
          if nFilter div 10 < nThis then modOverFilter self filt result
          else modOverThis self filt result
        }
      else None)"

subsection \<open>The iteration visits the set bits in increasing order\<close>

definition setBits :: "BitVector \<Rightarrow> nat list" where
  "setBits bv = filter (testBit (bucketVector bv)) [0..<bitCount bv]"

fun foldOpt :: "(nat \<Rightarrow> 's \<Rightarrow> 's option) \<Rightarrow> nat list \<Rightarrow> 's \<Rightarrow> 's option" where
  "foldOpt body [] s = Some s"
| "foldOpt body (x # xs) s = (case body x s of None \<Rightarrow> None | Some s' \<Rightarrow> foldOpt body xs s')"

lemma filter_upt_none:
  "(\<forall>j. k \<le> j \<and> j < e \<longrightarrow> \<not> P j) \<Longrightarrow> filter P [k..<e] = []"
  by (auto simp add: filter_empty_conv)

lemma filter_upt_first:
  assumes "k \<le> i" "i < e" "P i" "\<forall>j. k \<le> j \<and> j < i \<longrightarrow> \<not> P j"
  shows "filter P [k..<e] = i # filter P [Suc i..<e]"
proof -
  have "[k..<e] = [k..<i] @ i # [Suc i..<e]"
    using assms(1,2) by (metis le_add_diff_inverse less_imp_le_nat upt_add_eq_append upt_conv_Cons)
  moreover have "filter P [k..<i] = []" using assms(4) by (rule filter_upt_none)
  ultimately show ?thesis using assms(3) by simp
qed

lemma forSetBitsFrom_foldOpt:
  assumes "bitCount bv \<le> 64 * length (bucketVector bv)"
  shows "isNext (bucketVector bv) k (bitCount bv) i \<Longrightarrow>
         forSetBitsFrom bv body i s
           = foldOpt body (filter (testBit (bucketVector bv)) [k..<bitCount bv]) s"
proof (induction "bitCount bv - k" arbitrary: k i s rule: less_induct)
  case less
  let ?e = "bitCount bv" and ?bs = "bucketVector bv"
  from less.prems have nx: "i \<le> ?e" "\<forall>j. k \<le> j \<and> j < i \<longrightarrow> \<not> testBit ?bs j"
    "i < ?e \<longrightarrow> k \<le> i \<and> testBit ?bs i" by (auto simp add: isNext_iff)
  show ?case
  proof (cases "i = ?e")
    case True
    with nx(2) have "filter (testBit ?bs) [k..<?e] = []" by (intro filter_upt_none) simp
    with True show ?thesis by (simp add: forSetBitsFrom.simps[of bv body "bitCount bv" s])
  next
    case False
    with nx have i: "k \<le> i" "i < ?e" "testBit ?bs i" by auto
    have fl: "filter (testBit ?bs) [k..<?e] = i # filter (testBit ?bs) [Suc i..<?e]"
      using i nx(2) by (rule filter_upt_first)
    from getNextSetIndex_spec[OF assms, of "Suc i"] obtain r where
      r: "getNextSetIndex ?bs (Suc i) ?e = Some r" "isNext ?bs (Suc i) ?e r" by blast
    show ?thesis
    proof (cases "body i s")
      case None
      with False fl show ?thesis by (simp add: forSetBitsFrom.simps[of bv body i s])
    next
      case (Some s')
      have "forSetBitsFrom bv body r s' = foldOpt body (filter (testBit ?bs) [Suc i..<?e]) s'"
        using less.hyps[of "Suc i" r s'] r(2) i by simp
      with Some False fl r(1) show ?thesis by (simp add: forSetBitsFrom.simps[of bv body i s])
    qed
  qed
qed

lemma forSetBits_foldOpt:
  assumes "bitCount bv \<le> 64 * length (bucketVector bv)"
  shows "forSetBits bv body s = foldOpt body (setBits bv) s"
proof -
  from getNextSetIndex_spec[OF assms, of 0] obtain r where
    r: "getNextSetIndex (bucketVector bv) 0 (bitCount bv) = Some r"
       "isNext (bucketVector bv) 0 (bitCount bv) r" by blast
  from forSetBitsFrom_foldOpt[OF assms r(2)] r(1) show ?thesis
    by (simp add: forSetBits_def setBits_def)
qed

lemma bucketCountFor_bound: "len \<le> 64 * bucketCountFor len"
  by (simp add: bucketCountFor_def) (use mod_less_divisor[of 64 len] div_mult_mod_eq[of len 64] in linarith)

lemma bucketCountFor_bound2: "64 * bucketCountFor len < len + 64"
  by (simp add: bucketCountFor_def) (use mod_less_divisor[of 64 len] div_mult_mod_eq[of len 64] in linarith)

lemma invariant_capacity: "bv_invariant bv \<Longrightarrow> bitCount bv \<le> 64 * length (bucketVector bv)"
  using bucketCountFor_bound[of "bitCount bv"] by (simp add: bv_invariant_def)

subsection \<open>Counting set bits\<close>

lemma rev_upt_64: "rev [0..<64] = map (\<lambda>j. 63 - j) [0..<64::nat]"
  by code_simp

lemma popcountll_msb_first: "popcountll w = length (filter (\<lambda>j. bit w (63 - j)) [0..<64])"
proof -
  have "popcountll w = length (rev (filter (bit w) [0..<64]))" by (simp add: popcountll_def)
  also have "\<dots> = length (filter (bit w) (map (\<lambda>j. 63 - j) [0..<64]))"
    by (simp only: rev_filter rev_upt_64)
  also have "\<dots> = length (filter (\<lambda>j. bit w (63 - j)) [0..<64])"
    by (simp add: filter_map comp_def)
  finally show ?thesis .
qed

lemma count_in_bucket:
  assumes "s mod 64 = 0" "t \<le> 64"
  shows "length (filter (testBit bs) [s..<s + t])
           = length (filter (\<lambda>j. bit (bs ! (s div 64)) (63 - j)) [0..<t])"
proof -
  have "[s..<s + t] = map (\<lambda>j. j + s) [0..<t]" by (simp add: map_add_upt add.commute)
  then have "length (filter (testBit bs) [s..<s + t])
               = length (filter (\<lambda>j. testBit bs (s + j)) [0..<t])"
    by (simp add: filter_map comp_def add.commute)
  also have "filter (\<lambda>j. testBit bs (s + j)) [0..<t]
               = filter (\<lambda>j. bit (bs ! (s div 64)) (63 - j)) [0..<t]"
    using assms by (intro filter_cong refl) (simp add: testBit_offset)
  finally show ?thesis .
qed

lemma popcountll_bucket:
  assumes "s mod 64 = 0"
  shows "popcountll (bs ! (s div 64)) = length (filter (testBit bs) [s..<s + 64])"
  using count_in_bucket[OF assms, of 64 bs] by (simp add: popcountll_msb_first)

lemma popcountll_partial:
  assumes "0 < t" "t < 64"
  shows "popcountll (NOT (push_bit (64 - t) 1 - 1) AND w)
           = length (filter (\<lambda>j. bit w (63 - j)) [0..<t])"
proof -
  let ?m = "push_bit (64 - t) 1 - 1 :: u64"
  have b: "bit (NOT ?m AND w) (63 - j) \<longleftrightarrow> bit w (63 - j) \<and> j < t" if "j < 64" for j
  proof -
    have "bit ?m (63 - j) \<longleftrightarrow> 63 - j < 64 - (64 - (64 - t))"
      using bit_lowmask[of "64 - (64 - t)" "63 - j"] assms by simp
    then show ?thesis using that assms by (auto simp add: bit_and_iff bit_not_iff)
  qed
  have "popcountll (NOT ?m AND w) = length (filter (\<lambda>j. bit (NOT ?m AND w) (63 - j)) [0..<64])"
    by (rule popcountll_msb_first)
  also have "filter (\<lambda>j. bit (NOT ?m AND w) (63 - j)) [0..<64]
               = filter (\<lambda>j. bit w (63 - j) \<and> j < t) [0..<64]"
    by (intro filter_cong refl) (simp add: b del: push_bit_of_1)
  also have "[0..<64] = [0..<t] @ [t..<64]"
    using upt_add_eq_append[of 0 t "64 - t"] assms by simp
  also have "filter (\<lambda>j. bit w (63 - j) \<and> j < t) ([0..<t] @ [t..<64])
               = filter (\<lambda>j. bit w (63 - j)) [0..<t]"
    by (auto simp add: filter_empty_conv intro: filter_cong)
  finally show ?thesis .
qed

lemma sum_popcount_take:
  "q \<le> length bs \<Longrightarrow>
   sum_list (map popcountll (take q bs)) = length (filter (testBit bs) [0..<64 * q])"
proof (induction q)
  case 0
  then show ?case by simp
next
  case (Suc q)
  then have q: "q < length bs" by simp
  have "[0..<64 * q + 64] = [0..<64 * q] @ [64 * q..<64 * q + 64]"
    by (rule upt_add_eq_append) simp
  then have "length (filter (testBit bs) [0..<64 * Suc q])
               = length (filter (testBit bs) [0..<64 * q])
                 + length (filter (testBit bs) [64 * q..<64 * q + 64])"
    by (simp add: add.commute)
  moreover have "popcountll (bs ! q) = length (filter (testBit bs) [64 * q..<64 * q + 64])"
    using popcountll_bucket[of "64 * q" bs] by simp
  moreover have "sum_list (map popcountll (take (Suc q) bs))
                   = sum_list (map popcountll (take q bs)) + popcountll (bs ! q)"
    using q by (simp add: take_Suc_conv_app_nth)
  ultimately show ?case using Suc.IH q by simp
qed

lemma getNumberOfSetBitsBeforeIndex_count:
  assumes "index \<le> 64 * length (bucketVector bv)"
  shows "getNumberOfSetBitsBeforeIndex bv index
           = Some (length (filter (testBit (bucketVector bv)) [0..<index]))"
proof -
  let ?bs = "bucketVector bv" and ?q = "index div 64" and ?t = "index mod 64"
  have q: "?q \<le> length ?bs" using assms by (simp add: div_le_mono2 less_eq_div_iff_mult_less_eq mult.commute)
  have idx: "index = 64 * ?q + ?t" by simp
  have full: "sum_list (map popcountll (take ?q ?bs)) = length (filter (testBit ?bs) [0..<64 * ?q])"
    using q by (rule sum_popcount_take)
  show ?thesis
  proof (cases "?t = 0")
    case True
    then have "index = 64 * ?q" by auto
    with True q full show ?thesis by (simp add: getNumberOfSetBitsBeforeIndex_def Let_def)
  next
    case False
    then have t: "0 < ?t" "?t < 64" by auto
    have q': "?q < length ?bs"
    proof (rule ccontr)
      assume "\<not> ?q < length ?bs"
      with q have "?q = length ?bs" by simp
      with idx t assms show False by linarith
    qed
    have "[0..<index] = [0..<64 * ?q] @ [64 * ?q..<64 * ?q + ?t]"
      by (subst (1) idx) (simp only: upt_add_eq_append[OF le0])
    moreover have "length (filter (testBit ?bs) [64 * ?q..<64 * ?q + ?t])
                     = popcountll (NOT (push_bit (64 - ?t) 1 - 1) AND ?bs ! ?q)"
      using count_in_bucket[of "64 * ?q" ?t ?bs] popcountll_partial[OF t, of "?bs ! ?q"] t by simp
    ultimately show ?thesis
      using False q' q full by (simp add: getNumberOfSetBitsBeforeIndex_def Let_def)
  qed
qed

subsection \<open>The invariant, bit by bit\<close>

lemma div_mod_eq_iff: "(j div 64 = p div 64 \<and> j mod 64 = p mod (64::nat)) \<longleftrightarrow> j = p"
  by (metis div_mult_mod_eq)

lemma last_bucket_index:
  fixes n j :: nat
  assumes "n mod 64 \<noteq> 0" "n \<le> j" "j < 64 * (n div 64 + 1)"
  shows "j div 64 = n div 64" "n mod 64 \<le> j mod 64"
proof -
  have a: "64 * (n div 64) \<le> j" using assms(2) div_mult_mod_eq[of n 64] by linarith
  then have "n div 64 \<le> j div 64" by (simp add: less_eq_div_iff_mult_less_eq mult.commute)
  moreover have "j div 64 < n div 64 + 1" using assms(3) by (simp add: less_mult_imp_div_less mult.commute)
  ultimately show d: "j div 64 = n div 64" by simp
  show "n mod 64 \<le> j mod 64"
    using assms(2) d div_mult_mod_eq[of n 64] div_mult_mod_eq[of j 64] by linarith
qed

lemma bv_invariant_iff:
  "bv_invariant bv \<longleftrightarrow>
     length (bucketVector bv) = bucketCountFor (bitCount bv) \<and>
     (\<forall>j. bitCount bv \<le> j \<and> j < 64 * length (bucketVector bv) \<longrightarrow> \<not> testBit (bucketVector bv) j)"
proof (cases "length (bucketVector bv) = bucketCountFor (bitCount bv)")
  case False
  then show ?thesis by (simp add: bv_invariant_def)
next
  case len: True
  let ?n = "bitCount bv" and ?bs = "bucketVector bv"
  show ?thesis
  proof (cases "?n mod 64 = 0")
    case True
    then have "64 * length ?bs = ?n" using len by (auto simp add: bucketCountFor_def)
    with True len show ?thesis by (auto simp add: bv_invariant_def)
  next
    case False
    then have l: "length ?bs = ?n div 64 + 1" using len by (simp add: bucketCountFor_def)
    then have lst: "last ?bs = ?bs ! (?n div 64)"
      by (metis add_diff_cancel_right' last_conv_nth length_0_conv add_is_0 zero_neq_one)
    have "take_bit (64 - ?n mod 64) (last ?bs) = 0 \<longleftrightarrow>
          (\<forall>j. ?n \<le> j \<and> j < 64 * length ?bs \<longrightarrow> \<not> testBit ?bs j)" (is "?L \<longleftrightarrow> ?R")
    proof
      assume L: ?L
      show ?R
      proof (intro allI impI)
        fix j assume j: "?n \<le> j \<and> j < 64 * length ?bs"
        with l False have d: "j div 64 = ?n div 64" "?n mod 64 \<le> j mod 64"
          using last_bucket_index[of ?n j] by auto
        have "\<not> bit (take_bit (64 - ?n mod 64) (last ?bs)) (63 - j mod 64)" using L by simp
        moreover have "63 - j mod 64 < 64 - ?n mod 64" using d(2) by simp
        ultimately have "\<not> bit (last ?bs) (63 - j mod 64)" by (simp add: bit_take_bit_iff)
        then show "\<not> testBit ?bs j" using d(1) lst by (simp add: testBit_def)
      qed
    next
      assume R: ?R
      show ?L
      proof (rule bit_word_eqI)
        fix k assume "k < LENGTH(64)"
        show "bit (take_bit (64 - ?n mod 64) (last ?bs)) k = bit (0 :: u64) k"
        proof (cases "k < 64 - ?n mod 64")
          case False
          then show ?thesis by (simp add: bit_take_bit_iff)
        next
          case True
          let ?j = "64 * (?n div 64) + (63 - k)"
          have "?n \<le> ?j" using True div_mult_mod_eq[of ?n 64] by linarith
          moreover have "?j < 64 * length ?bs" using l by simp
          ultimately have "\<not> testBit ?bs ?j" using R by blast
          moreover have "testBit ?bs ?j = bit (?bs ! (?n div 64)) (63 - (63 - k))"
            using testBit_offset[of "64 * (?n div 64)" "63 - k" ?bs] by simp
          ultimately show ?thesis using True lst by (simp add: bit_take_bit_iff)
        qed
      qed
    qed
    with len False show ?thesis by (simp add: bv_invariant_def)
  qed
qed

lemma padding_clear:
  "bv_invariant bv \<Longrightarrow> bitCount bv \<le> j \<Longrightarrow> j < 64 * length (bucketVector bv) \<Longrightarrow>
   \<not> testBit (bucketVector bv) j"
  by (simp add: bv_invariant_iff)

lemma getNumberOfSetBits_count:
  assumes "bv_invariant bv"
  shows "getNumberOfSetBits bv = Some (length (setBits bv))"
proof -
  let ?n = "bitCount bv" and ?bs = "bucketVector bv"
  have cap: "?n \<le> 64 * length ?bs" using assms by (rule invariant_capacity)
  then have "[0..<64 * length ?bs] = [0..<?n] @ [?n..<64 * length ?bs]"
    by (metis le_add_diff_inverse upt_add_eq_append zero_le)
  moreover have "filter (testBit ?bs) [?n..<64 * length ?bs] = []"
    using padding_clear[OF assms] by (intro filter_upt_none) simp
  ultimately have "filter (testBit ?bs) [0..<64 * length ?bs] = setBits bv"
    by (simp add: setBits_def)
  then show ?thesis
    using getNumberOfSetBitsBeforeIndex_count[of "length ?bs * 64" bv]
    by (simp add: getNumberOfSetBits_def mult.commute)
qed

lemma testBit_update:
  assumes "j div 64 < length bs"
  shows "testBit (bs[q := w]) j = (if j div 64 = q then bit w (63 - j mod 64) else testBit bs j)"
  using assms by (simp add: testBit_def)

lemma bit_or_single: "k < 64 \<Longrightarrow> bit ((w::u64) OR push_bit m 1) k \<longleftrightarrow> bit w k \<or> k = m"
  by (auto simp add: bit_or_iff bit_exp_iff)

lemma bv_set_True:
  assumes "bv_invariant r" "p < bitCount r"
  shows "\<exists>r'. bv_set r p True = Some r' \<and> bitCount r' = bitCount r \<and> bv_invariant r' \<and>
           (\<forall>j < bitCount r. testBit (bucketVector r') j \<longleftrightarrow> j = p \<or> testBit (bucketVector r) j)"
proof -
  let ?bs = "bucketVector r" and ?q = "p div 64"
  let ?w = "?bs ! ?q OR push_bit (63 - p mod 64) 1"
  let ?r' = "r\<lparr>bucketVector := ?bs[?q := ?w]\<rparr>"
  have cap: "bitCount r \<le> 64 * length ?bs" using assms(1) by (rule invariant_capacity)
  have q: "?q < length ?bs" using assms(2) cap by (simp add: less_mult_imp_div_less mult.commute)
  have eq: "bv_set r p True = Some ?r'" using assms(2) q by (simp add: bv_set_def Let_def)
  have tb: "testBit (bucketVector ?r') j \<longleftrightarrow> j = p \<or> testBit ?bs j" if "j < 64 * length ?bs" for j
  proof -
    have jd: "j div 64 < length ?bs" using that by (simp add: less_mult_imp_div_less mult.commute)
    show ?thesis
    proof (cases "j div 64 = ?q")
      case True
      have "bit ?w (63 - j mod 64) \<longleftrightarrow> bit (?bs ! ?q) (63 - j mod 64) \<or> 63 - j mod 64 = 63 - p mod 64"
        by (rule bit_or_single) simp
      moreover have "63 - j mod 64 = 63 - p mod 64 \<longleftrightarrow> j = p"
        using True div_mod_eq_iff[of j p] by auto
      ultimately show ?thesis using True jd by (auto simp add: testBit_update testBit_def)
    next
      case False
      then have "j \<noteq> p" by auto
      with False jd show ?thesis by (simp add: testBit_update)
    qed
  qed
  have "bv_invariant ?r'"
    using assms tb unfolding bv_invariant_iff by auto
  with eq tb cap show ?thesis by auto
qed

lemma BitVector_new_False:
  "BitVector_new n False = Some \<lparr>bitCount = n, bucketVector = replicate (bucketCountFor n) 0\<rparr>"
  by (simp add: BitVector_new_def)

lemma testBit_zeros: "j < 64 * k \<Longrightarrow> \<not> testBit (replicate k 0) j"
  by (simp add: testBit_def less_mult_imp_div_less mult.commute)

lemma invariant_zeros: "bv_invariant \<lparr>bitCount = n, bucketVector = replicate (bucketCountFor n) 0\<rparr>"
  by (simp add: bv_invariant_iff testBit_zeros)

lemma filter_upt_split:
  assumes "x < n" "P x"
  shows "filter P [0..<n] = filter P [0..<x] @ x # filter P [Suc x..<n]"
proof -
  have "[0..<n] = [0..<x] @ x # [Suc x..<n]"
    using assms(1) by (metis le0 le_add_diff_inverse less_imp_le_nat upt_add_eq_append upt_conv_Cons)
  with assms(2) show ?thesis by simp
qed

lemma rank_less:
  "x < n \<Longrightarrow> P x \<Longrightarrow> length (filter P [0..<x]) < length (filter P [0..<n])"
  by (simp add: filter_upt_split[of x n P])

lemma nth_rank:
  "x < n \<Longrightarrow> P x \<Longrightarrow> filter P [0..<n] ! length (filter P [0..<x]) = x"
  by (simp add: filter_upt_split[of x n P] nth_append)

lemma rank_nth:
  assumes "j < length (filter P [0..<n])"
  shows "filter P [0..<n] ! j < n \<and> P (filter P [0..<n] ! j) \<and>
         length (filter P [0..<filter P [0..<n] ! j]) = j"
proof -
  let ?L = "filter P [0..<n]" and ?x = "filter P [0..<n] ! j"
  have "?x \<in> set ?L" using assms by (rule nth_mem)
  then have x: "?x < n" "P ?x" by auto
  have "?L ! length (filter P [0..<?x]) = ?L ! j" using nth_rank[of ?x n P] x by simp
  moreover have "length (filter P [0..<?x]) < length ?L" using rank_less[of ?x n P] x by simp
  moreover have "distinct ?L" by simp
  ultimately have "length (filter P [0..<?x]) = j" using assms by (simp add: nth_eq_iff_index_eq)
  with x show ?thesis by simp
qed

lemma bv_ext:
  assumes "bv_invariant a" "bv_invariant b" "bitCount a = bitCount b"
    and bits: "\<forall>j < bitCount a. testBit (bucketVector a) j = testBit (bucketVector b) j"
  shows "a = (b :: BitVector)"
proof -
  let ?as = "bucketVector a" and ?bs = "bucketVector b"
  have len: "length ?as = length ?bs" using assms(1-3) by (simp add: bv_invariant_def)
  have all: "testBit ?as j = testBit ?bs j" if "j < 64 * length ?as" for j
  proof (cases "j < bitCount a")
    case True with bits show ?thesis by simp
  next
    case False
    then show ?thesis
      using padding_clear[OF assms(1), of j] padding_clear[OF assms(2), of j] that len assms(3) by simp
  qed
  have "?as = ?bs"
  proof (rule nth_equalityI[OF len])
    fix q assume q: "q < length ?as"
    show "?as ! q = ?bs ! q"
    proof (rule bit_word_eqI)
      fix k assume "k < LENGTH(64)"
      then have k: "k < 64" by simp
      have "testBit ?as (64 * q + (63 - k)) = testBit ?bs (64 * q + (63 - k))"
        using q by (intro all) simp
      then show "bit (?as ! q) k = bit (?bs ! q) k"
        using testBit_offset[of "64 * q" "63 - k"] k by simp
    qed
  qed
  with assms(3) show ?thesis by simp
qed

subsection \<open>The two loops of the filter operator\<close>

lemma bv_at_in_range:
  "bv_invariant bv \<Longrightarrow> x < bitCount bv \<Longrightarrow> bv_at bv x = Some (testBit (bucketVector bv) x)"
  using invariant_capacity[of bv]
  by (intro bv_at_testBit) (simp add: less_mult_imp_div_less mult.commute)

lemma overFilter_fold:
  fixes self :: BitVector
  defines "body \<equiv> (\<lambda>bit (result, position).
             do {
               b \<leftarrow> bv_at self bit;
               result' \<leftarrow> (if b then bv_set result position True else Some result);
               Some (result', position + 1)
             })"
  assumes "bv_invariant self"
  shows "\<forall>x \<in> set xs. x < bitCount self \<Longrightarrow> bv_invariant r \<Longrightarrow> pos + length xs \<le> bitCount r \<Longrightarrow>
         \<exists>r'. foldOpt body xs (r, pos) = Some (r', pos + length xs) \<and>
              bitCount r' = bitCount r \<and> bv_invariant r' \<and>
              (\<forall>j < bitCount r. testBit (bucketVector r') j \<longleftrightarrow>
                 testBit (bucketVector r) j \<or>
                 (pos \<le> j \<and> j < pos + length xs \<and> testBit (bucketVector self) (xs ! (j - pos))))"
proof (induction xs arbitrary: r pos)
  case Nil
  then show ?case by auto
next
  case (Cons x xs)
  from Cons.prems have x: "x < bitCount self" and xs: "\<forall>x \<in> set xs. x < bitCount self"
    and pos: "pos < bitCount r" "Suc pos + length xs \<le> bitCount r" by auto
  have at: "bv_at self x = Some (testBit (bucketVector self) x)"
    using assms(2) x by (rule bv_at_in_range)
  obtain r1 where r1: "body x (r, pos) = Some (r1, Suc pos)" "bitCount r1 = bitCount r" "bv_invariant r1"
    "\<forall>j < bitCount r. testBit (bucketVector r1) j \<longleftrightarrow>
        testBit (bucketVector r) j \<or> (j = pos \<and> testBit (bucketVector self) x)"
  proof (cases "testBit (bucketVector self) x")
    case True
    from bv_set_True[OF Cons.prems(2) pos(1)] obtain r1 where
      "bv_set r pos True = Some r1" "bitCount r1 = bitCount r" "bv_invariant r1"
      "\<forall>j < bitCount r. testBit (bucketVector r1) j \<longleftrightarrow> j = pos \<or> testBit (bucketVector r) j" by blast
    with True at that[of r1] show ?thesis by (auto simp add: body_def)
  next
    case False
    with at Cons.prems(2) that[of r] show ?thesis by (simp add: body_def)
  qed
  from Cons.IH[OF xs r1(3), of "Suc pos"] pos(2) r1(2) obtain r' where
    r': "foldOpt body xs (r1, Suc pos) = Some (r', Suc pos + length xs)"
    "bitCount r' = bitCount r1" "bv_invariant r'"
    "\<forall>j < bitCount r1. testBit (bucketVector r') j \<longleftrightarrow>
        testBit (bucketVector r1) j \<or>
        (Suc pos \<le> j \<and> j < Suc pos + length xs \<and> testBit (bucketVector self) (xs ! (j - Suc pos)))"
    by auto
  have "testBit (bucketVector r') j \<longleftrightarrow>
          testBit (bucketVector r) j \<or>
          (pos \<le> j \<and> j < pos + length (x # xs) \<and> testBit (bucketVector self) ((x # xs) ! (j - pos)))"
    if j: "j < bitCount r" for j
  proof (cases "j = pos")
    case True
    with r'(4) r1(4) r1(2) j show ?thesis by simp
  next
    case False
    have "(x # xs) ! (j - pos) = xs ! (j - Suc pos)" if "Suc pos \<le> j"
      using that by (simp add: nth_Cons' Suc_diff_le)
    with False r'(4) r1(4) r1(2) j show ?thesis by (cases "Suc pos \<le> j") auto
  qed
  with r'(1,2,3) r1(1,2) show ?case by simp
qed

lemma overThis_fold:
  fixes filt :: BitVector
  defines "body \<equiv> (\<lambda>bit result.
          do {
            f \<leftarrow> bv_at filt bit;
            if f then
              do {
                k \<leftarrow> getNumberOfSetBitsBeforeIndex filt bit;
                bv_set result k True
              }
            else Some result
          })"
  defines "rank \<equiv> (\<lambda>x. length (filter (testBit (bucketVector filt)) [0..<x]))"
  assumes "bv_invariant filt"
  shows "\<forall>x \<in> set xs. x < bitCount filt \<Longrightarrow> bv_invariant r \<Longrightarrow> bitCount r = length (setBits filt) \<Longrightarrow>
         \<exists>r'. foldOpt body xs r = Some r' \<and> bitCount r' = bitCount r \<and> bv_invariant r' \<and>
              (\<forall>j < bitCount r. testBit (bucketVector r') j \<longleftrightarrow>
                 testBit (bucketVector r) j \<or>
                 (\<exists>x \<in> set xs. testBit (bucketVector filt) x \<and> rank x = j))"
proof (induction xs arbitrary: r)
  case Nil
  then show ?case by auto
next
  case (Cons x xs)
  from Cons.prems have x: "x < bitCount filt" and xs: "\<forall>x \<in> set xs. x < bitCount filt" by auto
  have at: "bv_at filt x = Some (testBit (bucketVector filt) x)"
    using assms(3) x by (rule bv_at_in_range)
  have cnt: "getNumberOfSetBitsBeforeIndex filt x = Some (rank x)"
    unfolding rank_def using invariant_capacity[OF assms(3)] x
    by (intro getNumberOfSetBitsBeforeIndex_count) simp
  obtain r1 where r1: "body x r = Some r1" "bitCount r1 = bitCount r" "bv_invariant r1"
    "\<forall>j < bitCount r. testBit (bucketVector r1) j \<longleftrightarrow>
        testBit (bucketVector r) j \<or> (testBit (bucketVector filt) x \<and> rank x = j)"
  proof (cases "testBit (bucketVector filt) x")
    case True
    have "rank x < bitCount r"
      using rank_less[OF x, of "testBit (bucketVector filt)"] True Cons.prems(3)
      by (simp add: rank_def setBits_def)
    from bv_set_True[OF Cons.prems(2) this] obtain r1 where
      "bv_set r (rank x) True = Some r1" "bitCount r1 = bitCount r" "bv_invariant r1"
      "\<forall>j < bitCount r. testBit (bucketVector r1) j \<longleftrightarrow> j = rank x \<or> testBit (bucketVector r) j" by blast
    with True at cnt that[of r1] show ?thesis by (auto simp add: body_def)
  next
    case False
    with at Cons.prems(2) that[of r] show ?thesis by (simp add: body_def)
  qed
  from Cons.IH[OF xs r1(3)] Cons.prems(3) r1(2) obtain r' where
    r': "foldOpt body xs r1 = Some r'" "bitCount r' = bitCount r1" "bv_invariant r'"
    "\<forall>j < bitCount r1. testBit (bucketVector r') j \<longleftrightarrow>
        testBit (bucketVector r1) j \<or> (\<exists>x \<in> set xs. testBit (bucketVector filt) x \<and> rank x = j)"
    by auto
  have "testBit (bucketVector r') j \<longleftrightarrow>
          testBit (bucketVector r) j \<or> (\<exists>y \<in> set (x # xs). testBit (bucketVector filt) y \<and> rank y = j)"
    if j: "j < bitCount r" for j
    using r'(4) r1(4) r1(2) j by auto
  with r'(1,2,3) r1(1,2) show ?case by simp
qed

lemma bv_get_in_range:
  "bv_invariant bv \<Longrightarrow> x < bitCount bv \<Longrightarrow> bv_get bv x = Some (testBit (bucketVector bv) x)"
  by (simp add: bv_get_def bv_at_in_range)

lemma setBits_member: "x \<in> set (setBits bv) \<longleftrightarrow> x < bitCount bv \<and> testBit (bucketVector bv) x"
  by (auto simp add: setBits_def)

section \<open>C8: the padding invariant, equality and fullness\<close>

text \<open>
  Claim C8: every BitVector operation keeps the positions of the last bucket beyond the bit
  count at zero, under this invariant the bucket-wise \<open>operator==\<close> is position-wise
  equality, and \<open>full()\<close> returns true iff all \<open>bitCount\<close> bits are set.

  The vector of length 0 (what \<open>BitVector()\<close> and \<open>BitVector(0)\<close> build) has no
  bucket. All of its zero bits are set, so \<open>full()\<close> should answer true; the code reads
  \<open>bucketVector[0]\<close> of the empty vector instead. Growing the same vector with
  \<open>resize(5, true)\<close> calls \<open>bucketVector.back()\<close> on the empty vector.
\<close>

theorem C8_full_and_resize_leave_defined_behaviour_on_empty_vector:
  "BitVector_new 0 False = Some \<lparr>bitCount = 0, bucketVector = []\<rparr> \<and>
   bv_invariant \<lparr>bitCount = 0, bucketVector = []\<rparr> \<and>
   full \<lparr>bitCount = 0, bucketVector = []\<rparr> = None \<and>
   resize \<lparr>bitCount = 0, bucketVector = []\<rparr> 5 True = None"
  by (simp add: BitVector_new_def bucketCountFor_def bv_invariant_def full_def resize_def
      lowMask_def shl1_def updateBack_def)

section \<open>C9: the two branches of the filter operator\<close>

definition exampleSelf :: BitVector where
  "exampleSelf = \<lparr>bitCount = 70, bucketVector = [0xF000000000000005, 0xC000000000000000]\<rparr>"

definition exampleFilter :: BitVector where
  "exampleFilter = \<lparr>bitCount = 70, bucketVector = [0xA000000000000007, 0x4400000000000000]\<rparr>"

lemma example_invariants:
  "bv_invariant exampleSelf" "bv_invariant exampleFilter" "bitCount exampleSelf = bitCount exampleFilter"
  by (simp_all add: bv_invariant_def exampleSelf_def exampleFilter_def bucketCountFor_def)

text \<open>
  Claim C9: for bit vectors \<open>b\<close> and \<open>filter\<close> of the same size, the two branches of
  \<open>BitVector::operator%\<close> (the walk over the set bits of the filter and the walk over the
  set bits of \<open>b\<close>) return the same bit vector. Its length is
  \<open>filter.getNumberOfSetBits()\<close>, and its \<open>i\<close>-th bit is the bit that \<open>b\<close> has at the
  \<open>i\<close>-th set index of the filter, the set indices taken in increasing order.

  Both operands satisfy the representation invariant, as every vector built by the
  constructors does. The bits of the result are read from its buckets with \<open>testBit\<close>,
  independently of the accessors of the class; that \<open>get\<close> returns the same bits is
  stated in addition. Both branches return a result (no branch reads or writes a bucket
  that does not exist or shifts by 64 or more), where the signed counter of
  \<open>getNumberOfSetBitsBeforeIndex\<close> and the mask arithmetic of \<open>truncateLastBucket\<close> are
  taken as two's-complement arithmetic on 64 bits, as the model of these functions writes
  them. The result satisfies the invariant again.
\<close>

theorem C9_filter_branches_agree:
  assumes "bv_invariant self" "bv_invariant filt" "bitCount self = bitCount filt"
  shows "\<exists>n result r.
      getNumberOfSetBits filt = Some n \<and> BitVector_new n False = Some result \<and>
      modOverFilter self filt result = Some r \<and>
      modOverThis self filt result = Some r \<and>
      operator_mod self filt = Some r \<and>
      n = length (setBits filt) \<and> bitCount r = n \<and> bv_invariant r \<and>
      (\<forall>i < n. setBits filt ! i < bitCount self \<and>
         testBit (bucketVector filt) (setBits filt ! i) \<and>
         length (filter (testBit (bucketVector filt)) [0..<setBits filt ! i]) = i \<and>
         (testBit (bucketVector r) i \<longleftrightarrow> testBit (bucketVector self) (setBits filt ! i)) \<and>
         bv_get r i = Some (testBit (bucketVector self) (setBits filt ! i)) \<and>
         bv_get self (setBits filt ! i) = Some (testBit (bucketVector self) (setBits filt ! i)))"
proof -
  let ?L = "setBits filt" and ?n = "length (setBits filt)"
  let ?P = "testBit (bucketVector filt)"
  let ?res = "\<lparr>bitCount = ?n, bucketVector = replicate (bucketCountFor ?n) 0\<rparr>"
  have nf: "getNumberOfSetBits filt = Some ?n" using assms(2) by (rule getNumberOfSetBits_count)
  have ns: "getNumberOfSetBits self = Some (length (setBits self))"
    using assms(1) by (rule getNumberOfSetBits_count)
  have new: "BitVector_new ?n False = Some ?res" by (rule BitVector_new_False)
  have inv0: "bv_invariant ?res" by (rule invariant_zeros)
  have zero: "\<not> testBit (bucketVector ?res) j" if "j < ?n" for j
    using that bucketCountFor_bound[of ?n] by (simp add: testBit_zeros)
  \<comment> \<open>the loop over the set bits of the filter\<close>
  have "\<forall>x \<in> set ?L. x < bitCount self" using assms(3) by (simp add: setBits_member)
  from overFilter_fold[OF assms(1) this inv0, of 0] obtain r1 where
    r1: "foldOpt (\<lambda>bit (result, position).
             do {
               b \<leftarrow> bv_at self bit;
               result' \<leftarrow> (if b then bv_set result position True else Some result);
               Some (result', position + 1)
             }) ?L (?res, 0) = Some (r1, 0 + ?n)"
      "bitCount r1 = ?n" "bv_invariant r1"
      "\<forall>j < ?n. testBit (bucketVector r1) j \<longleftrightarrow>
          testBit (bucketVector ?res) j \<or> (0 \<le> j \<and> j < 0 + ?n \<and> testBit (bucketVector self) (?L ! (j - 0)))"
    by auto
  have b1: "modOverFilter self filt ?res = Some r1"
    using r1(1) by (simp add: modOverFilter_def forSetBits_foldOpt[OF invariant_capacity[OF assms(2)]])
  have bits1: "testBit (bucketVector r1) j \<longleftrightarrow> testBit (bucketVector self) (?L ! j)" if "j < ?n" for j
    using r1(4) zero that by simp
  \<comment> \<open>the loop over the set bits of this vector\<close>
  have "\<forall>x \<in> set (setBits self). x < bitCount filt" using assms(3) by (simp add: setBits_member)
  from overThis_fold[OF assms(2) this inv0] obtain r2 where
    r2: "foldOpt (\<lambda>bit result.
          do {
            f \<leftarrow> bv_at filt bit;
            if f then
              do {
                k \<leftarrow> getNumberOfSetBitsBeforeIndex filt bit;
                bv_set result k True
              }
            else Some result
          }) (setBits self) ?res = Some r2"
      "bitCount r2 = ?n" "bv_invariant r2"
      "\<forall>j < ?n. testBit (bucketVector r2) j \<longleftrightarrow>
          testBit (bucketVector ?res) j \<or>
          (\<exists>x \<in> set (setBits self). ?P x \<and> length (filter ?P [0..<x]) = j)"
    by auto
  have b2: "modOverThis self filt ?res = Some r2"
    using r2(1) by (simp add: modOverThis_def forSetBits_foldOpt[OF invariant_capacity[OF assms(1)]])
  have bits2: "testBit (bucketVector r2) j \<longleftrightarrow> testBit (bucketVector self) (?L ! j)" if j: "j < ?n" for j
  proof -
    from j have j': "j < length (filter ?P [0..<bitCount filt])" by (simp add: setBits_def)
    from rank_nth[OF j'] have x: "?L ! j < bitCount filt" "?P (?L ! j)"
      "length (filter ?P [0..<?L ! j]) = j" by (simp_all add: setBits_def)
    have "(\<exists>x \<in> set (setBits self). ?P x \<and> length (filter ?P [0..<x]) = j)
            \<longleftrightarrow> testBit (bucketVector self) (?L ! j)"
    proof
      assume "testBit (bucketVector self) (?L ! j)"
      with x assms(3) have "?L ! j \<in> set (setBits self)" by (simp add: setBits_member)
      with x show "\<exists>x \<in> set (setBits self). ?P x \<and> length (filter ?P [0..<x]) = j" by blast
    next
      assume "\<exists>x \<in> set (setBits self). ?P x \<and> length (filter ?P [0..<x]) = j"
      then obtain y where y: "y < bitCount filt" "testBit (bucketVector self) y" "?P y"
        "length (filter ?P [0..<y]) = j" using assms(3) by (auto simp add: setBits_member)
      from nth_rank[OF y(1), of ?P] y(3,4) have "?L ! j = y" by (simp add: setBits_def)
      with y(2) show "testBit (bucketVector self) (?L ! j)" by simp
    qed
    with r2(4) zero j show ?thesis by simp
  qed
  have same: "r1 = r2"
    using r1(2,3) r2(2,3) bits1 bits2 by (intro bv_ext) simp_all
  have om: "operator_mod self filt = Some r1"
    using assms(3) nf ns new b1 b2 same by (simp add: operator_mod_def)
  have get: "?L ! i < bitCount self \<and> ?P (?L ! i) \<and> length (filter ?P [0..<?L ! i]) = i \<and>
      (testBit (bucketVector r1) i \<longleftrightarrow> testBit (bucketVector self) (?L ! i)) \<and>
      bv_get r1 i = Some (testBit (bucketVector self) (?L ! i)) \<and>
      bv_get self (?L ! i) = Some (testBit (bucketVector self) (?L ! i))" if i: "i < ?n" for i
  proof -
    from i have i': "i < length (filter ?P [0..<bitCount filt])" by (simp add: setBits_def)
    from rank_nth[OF i'] have x: "?L ! i < bitCount filt" "?P (?L ! i)"
      "length (filter ?P [0..<?L ! i]) = i" by (simp_all add: setBits_def)
    from x(1) have lt: "?L ! i < bitCount self" using assms(3) by simp
    then have "bv_get self (?L ! i) = Some (testBit (bucketVector self) (?L ! i))"
      using assms(1) by (simp add: bv_get_in_range)
    moreover have "bv_get r1 i = Some (testBit (bucketVector r1) i)"
      using r1(2,3) i by (simp add: bv_get_in_range)
    ultimately show ?thesis using bits1[OF i] lt x(2,3) by simp
  qed
  from nf new b1 b2 same om r1(2,3) get show ?thesis by blast
qed

theorem C9_filter_branches_agree_witness:
  "bv_invariant exampleSelf \<and> bv_invariant exampleFilter \<and>
   bitCount exampleSelf = bitCount exampleFilter \<and>
   (\<exists>n result r.
      getNumberOfSetBits exampleFilter = Some n \<and> BitVector_new n False = Some result \<and>
      modOverFilter exampleSelf exampleFilter result = Some r \<and>
      modOverThis exampleSelf exampleFilter result = Some r \<and>
      operator_mod exampleSelf exampleFilter = Some r \<and>
      n = length (setBits exampleFilter) \<and> bitCount r = n \<and> bv_invariant r \<and>
      (\<forall>i < n. setBits exampleFilter ! i < bitCount exampleSelf \<and>
         testBit (bucketVector exampleFilter) (setBits exampleFilter ! i) \<and>
         length (filter (testBit (bucketVector exampleFilter)) [0..<setBits exampleFilter ! i]) = i \<and>
         (testBit (bucketVector r) i \<longleftrightarrow>
            testBit (bucketVector exampleSelf) (setBits exampleFilter ! i)) \<and>
         bv_get r i = Some (testBit (bucketVector exampleSelf) (setBits exampleFilter ! i)) \<and>
         bv_get exampleSelf (setBits exampleFilter ! i)
           = Some (testBit (bucketVector exampleSelf) (setBits exampleFilter ! i))))"
  using C9_filter_branches_agree[OF example_invariants] example_invariants by blast

section \<open>MarkovAutomaton (src/storm/models/sparse/MarkovAutomaton.cpp)\<close>

text \<open>
  A Markov automaton holds a transition matrix whose rows (choices) are grouped by state,
  the set of Markovian states, the exit rates and the flag \<open>closed\<close>.

  The sparse matrix class and the bit-vector class this file is compiled against are not
  among the sources. The matrix is taken as its rows and its row group indices, with
  \<open>getRowGroupSize(state)\<close> the difference \<open>getRowGroupIndices()[state + 1] -
  getRowGroupIndices()[state]\<close> that \<open>hasOnlyTrivialNondeterminism\<close> computes. The bit
  vectors (\<open>markovianStates\<close>, \<open>keptChoices\<close>) are taken as the fixed-length bitsets they
  stand for: a list of booleans, \<open>set\<close> an update at an index below the length, \<open>full\<close> the
  conjunction of all positions, and the range-based \<open>for\<close> a walk over the set positions
  in increasing order that reads the vector as it is when the iterator advances.

  \<open>None\<close> stands for an element access outside a vector and for an exception. The row
  group indices are unsigned 64-bit numbers below \<open>2^64\<close>; their difference wraps.
\<close>

record 'v SparseMatrix =
  rowGroupIndices :: "nat list"
  matrixRows :: "(nat \<times> 'v) list list"

record 'v MarkovAutomaton =
  transitionMatrix :: "'v SparseMatrix"
  markovianStates :: "bool list"
  exitRates :: "'v list"
  closed :: bool

definition getRowGroupSize :: "'v SparseMatrix \<Rightarrow> nat \<Rightarrow> nat option" where
  "getRowGroupSize m state =
     (if Suc state < length (rowGroupIndices m)
      then Some (if rowGroupIndices m ! state \<le> rowGroupIndices m ! Suc state
                 then rowGroupIndices m ! Suc state - rowGroupIndices m ! state
                 else rowGroupIndices m ! Suc state + 2 ^ 64 - rowGroupIndices m ! state)
      else None)"

definition getNumberOfStates :: "'v MarkovAutomaton \<Rightarrow> nat" where
  "getNumberOfStates ma = length (rowGroupIndices (transitionMatrix ma)) - 1"

definition getNumberOfChoices :: "'v MarkovAutomaton \<Rightarrow> nat" where
  "getNumberOfChoices ma = length (matrixRows (transitionMatrix ma))"

definition isClosed :: "'v MarkovAutomaton \<Rightarrow> bool" where
  "isClosed ma = closed ma"

definition isMarkovianState :: "'v MarkovAutomaton \<Rightarrow> nat \<Rightarrow> bool option" where
  "isMarkovianState ma state =
     (if state < length (markovianStates ma) then Some (markovianStates ma ! state) else None)"

text \<open>\<open>checkIsClosed\<close>: the first Markovian state with more than one choice answers false.\<close>

primrec checkIsClosedFrom :: "'v SparseMatrix \<Rightarrow> nat \<Rightarrow> bool list \<Rightarrow> bool option" where
  "checkIsClosedFrom m state [] = Some True"
| "checkIsClosedFrom m state (b # bs) =
     (if b then
        (case getRowGroupSize m state of
           None \<Rightarrow> None
         | Some k \<Rightarrow> if k > 1 then Some False else checkIsClosedFrom m (Suc state) bs)
      else checkIsClosedFrom m (Suc state) bs)"

definition checkIsClosed :: "'v MarkovAutomaton \<Rightarrow> bool option" where
  "checkIsClosed ma = checkIsClosedFrom (transitionMatrix ma) 0 (markovianStates ma)"

text \<open>
  The loop of \<open>close\<close> walks \<open>this->getMarkovianStates()\<close> and, for a hybrid state, clears
  the state's first choice in \<open>keptChoices\<close>, clears the state in \<open>markovianStates\<close> (the
  very vector the loop walks) and zeroes its exit rate.
\<close>

function closeLoop ::
  "'v::zero SparseMatrix \<Rightarrow> nat \<Rightarrow> bool list \<times> bool list \<times> 'v list \<Rightarrow>
   (bool list \<times> bool list \<times> 'v list) option" where
  "closeLoop m state (keptChoices, markovian, rates) =
     (if state < length markovian then
        (if markovian ! state then
           (case getRowGroupSize m state of
              None \<Rightarrow> None
            | Some k \<Rightarrow>
                if k > 1 then
                  (if state < length (rowGroupIndices m) \<and>
                      rowGroupIndices m ! state < length keptChoices \<and> state < length rates
                   then closeLoop m (Suc state)
                          (keptChoices[rowGroupIndices m ! state := False],
                           markovian[state := False],
                           rates[state := 0])
                   else None)
                else closeLoop m (Suc state) (keptChoices, markovian, rates))
         else closeLoop m (Suc state) (keptChoices, markovian, rates))
      else Some (keptChoices, markovian, rates))"
  by pat_completeness auto
termination
  by (relation "measure (\<lambda>(m, state, k, markovian, r). length markovian - state)") auto

declare closeLoop.simps [simp del]

text \<open>
  \<open>close\<close>. \<open>storm::transformer::buildSubsystem\<close> is not among the sources: it is the
  parameter \<open>buildSubsystem\<close>, called with the automaton as the loop left it, all states,
  the kept choices and \<open>false\<close>; it returns the automaton that replaces this one, or throws.
\<close>

definition close ::
  "('v::zero MarkovAutomaton \<Rightarrow> bool list \<Rightarrow> bool list \<Rightarrow> bool \<Rightarrow> 'v MarkovAutomaton option) \<Rightarrow>
   'v MarkovAutomaton \<Rightarrow> 'v MarkovAutomaton option" where
  "close buildSubsystem ma =
     (if \<not> closed ma then
        (case closeLoop (transitionMatrix ma) 0
                (replicate (getNumberOfChoices ma) True, markovianStates ma, exitRates ma) of
           None \<Rightarrow> None
         | Some (keptChoices, markovian, rates) \<Rightarrow>
             (let ma1 = ma\<lparr>markovianStates := markovian, exitRates := rates\<rparr> in
              if \<not> list_all (\<lambda>b. b) keptChoices then
                (case buildSubsystem ma1 (replicate (getNumberOfStates ma1) True) keptChoices False of
                   None \<Rightarrow> None
                 | Some sub \<Rightarrow> Some (sub\<lparr>closed := True\<rparr>))
              else Some (ma1\<lparr>closed := True\<rparr>)))
      else Some ma)"

text \<open>
  A well-formed automaton: the row group indices start at 0, end at the number of rows and
  increase strictly (every state has at least one choice), and the Markovian-state vector
  and the exit rates have one entry per state.
\<close>

definition wellformed :: "'v MarkovAutomaton \<Rightarrow> bool" where
  "wellformed ma =
     (let g = rowGroupIndices (transitionMatrix ma); n = getNumberOfStates ma in
      g \<noteq> [] \<and> g ! 0 = 0 \<and> g ! n = getNumberOfChoices ma \<and>
      list_all (\<lambda>s. g ! s < g ! Suc s) [0..<n] \<and>
      length (markovianStates ma) = n \<and> length (exitRates ma) = n)"

text \<open>The number of choices of a state that \<open>keptChoices\<close> keeps.\<close>

definition keptInGroup :: "'v SparseMatrix \<Rightarrow> bool list \<Rightarrow> nat \<Rightarrow> nat" where
  "keptInGroup m keptChoices s =
     length (filter (\<lambda>i. keptChoices ! i) [rowGroupIndices m ! s..<rowGroupIndices m ! Suc s])"

text \<open>
  What is assumed of the automaton \<open>sub\<close> that \<open>buildSubsystem\<close> returns for the automaton
  \<open>ma\<close> and the kept choices: it is well formed, and each of its states is a state of
  \<open>ma\<close> with the same Markovian flag and with exactly the kept choices of that state.
\<close>

definition subsystemOf :: "'v MarkovAutomaton \<Rightarrow> bool list \<Rightarrow> 'v MarkovAutomaton \<Rightarrow> bool" where
  "subsystemOf ma keptChoices sub =
     (wellformed sub \<and>
      list_all
        (\<lambda>s'. list_ex
                 (\<lambda>s. markovianStates sub ! s' = markovianStates ma ! s \<and>
                      getRowGroupSize (transitionMatrix sub) s'
                        = Some (keptInGroup (transitionMatrix ma) keptChoices s))
                 [0..<getNumberOfStates ma])
        [0..<getNumberOfStates sub])"

subsection \<open>The loop and the closedness check\<close>

lemma wellformed_iff:
  "wellformed ma \<longleftrightarrow>
     (let g = rowGroupIndices (transitionMatrix ma); n = getNumberOfStates ma in
      g \<noteq> [] \<and> g ! 0 = 0 \<and> g ! n = getNumberOfChoices ma \<and>
      (\<forall>s < n. g ! s < g ! Suc s) \<and>
      length (markovianStates ma) = n \<and> length (exitRates ma) = n)"
  by (auto simp add: wellformed_def Let_def list_all_iff)

lemma strict_mono_nth:
  fixes g :: "nat list"
  assumes "\<forall>s < n. g ! s < g ! Suc s"
  shows "a \<le> b \<Longrightarrow> b \<le> n \<Longrightarrow> g ! a \<le> g ! b"
    and "a < b \<Longrightarrow> b \<le> n \<Longrightarrow> g ! a < g ! b"
proof -
  have *: "a < b \<Longrightarrow> b \<le> n \<Longrightarrow> g ! a < g ! b" for a b
  proof (induction b)
    case 0 then show ?case by simp
  next
    case (Suc b)
    then show ?case using assms by (cases "a = b") (auto intro: less_trans)
  qed
  show "a < b \<Longrightarrow> b \<le> n \<Longrightarrow> g ! a < g ! b" by (rule *)
  show "a \<le> b \<Longrightarrow> b \<le> n \<Longrightarrow> g ! a \<le> g ! b" using *[of a b] by (cases "a = b") auto
qed

lemma getRowGroupSize_wf:
  assumes "\<forall>s < n. rowGroupIndices m ! s < rowGroupIndices m ! Suc s"
    "length (rowGroupIndices m) = Suc n" "s < n"
  shows "getRowGroupSize m s = Some (rowGroupIndices m ! Suc s - rowGroupIndices m ! s)"
    and "0 < rowGroupIndices m ! Suc s - rowGroupIndices m ! s"
  using assms by (auto simp add: getRowGroupSize_def dest: less_imp_le_nat)

lemma checkIsClosedFrom_spec:
  assumes "\<forall>s < n. rowGroupIndices m ! s < rowGroupIndices m ! Suc s"
    "length (rowGroupIndices m) = Suc n"
  shows "state + length bs \<le> n \<Longrightarrow>
         checkIsClosedFrom m state bs
           = Some (\<forall>i < length bs. bs ! i \<longrightarrow> rowGroupIndices m ! Suc (state + i) - rowGroupIndices m ! (state + i) \<le> 1)"
proof (induction bs arbitrary: state)
  case Nil
  then show ?case by simp
next
  case (Cons b bs)
  then have s: "state < n" and rest: "Suc state + length bs \<le> n" by auto
  note sz = getRowGroupSize_wf(1)[OF assms s]
  have ih: "checkIsClosedFrom m (Suc state) bs
         = Some (\<forall>i < length bs. bs ! i \<longrightarrow> rowGroupIndices m ! Suc (Suc state + i) - rowGroupIndices m ! (Suc state + i) \<le> 1)"
    using Cons.IH[OF rest] .
  have split: "(\<forall>i < length (b # bs). P i) \<longleftrightarrow> P 0 \<and> (\<forall>i < length bs. P (Suc i))" for P
    by (auto simp add: less_Suc_eq_0_disj)
  show ?case
    by (subst split) (auto simp add: sz ih)
qed

lemma closeLoop_spec:
  fixes m :: "'v::zero SparseMatrix"
  defines "g \<equiv> rowGroupIndices m"
  assumes mono: "\<forall>s < n. g ! s < g ! Suc s" and len: "length g = Suc n"
  shows "length mark = n \<Longrightarrow> length rates = n \<Longrightarrow> length kept = g ! n \<Longrightarrow> state \<le> n \<Longrightarrow>
     \<exists>kept' mark' rates'.
        closeLoop m state (kept, mark, rates) = Some (kept', mark', rates') \<and>
        length kept' = length kept \<and> length mark' = n \<and> length rates' = n \<and>
        (\<forall>s < n. mark' ! s = (mark ! s \<and> \<not> (state \<le> s \<and> 1 < g ! Suc s - g ! s))) \<and>
        (\<forall>i < length kept. kept' ! i =
            (kept ! i \<and> \<not> (\<exists>s < n. state \<le> s \<and> mark ! s \<and> 1 < g ! Suc s - g ! s \<and> g ! s = i)))"
proof (induction "n - state" arbitrary: state kept mark rates)
  case 0
  then have sn: "state = n" by simp
  have "closeLoop m state (kept, mark, rates) = Some (kept, mark, rates)"
    using sn "0.prems"(1) by (subst closeLoop.simps) simp
  then show ?case using "0.prems" sn by auto
next
  case (Suc d)
  then have s: "state < n" and d: "d = n - Suc state" by auto
  have sz: "getRowGroupSize m state = Some (g ! Suc state - g ! state)"
    using getRowGroupSize_wf(1)[of n m state] mono len s by (simp add: g_def)
  have gs: "g ! state < g ! n" using strict_mono_nth(2)[OF mono, of state n] s by simp
  show ?case
  proof (cases "mark ! state \<and> 1 < g ! Suc state - g ! state")
    case False
    from Suc.hyps(1)[OF d Suc.prems(1,2,3), of ] s obtain kept' mark' rates' where
      r: "closeLoop m (Suc state) (kept, mark, rates) = Some (kept', mark', rates')"
      "length kept' = length kept" "length mark' = n" "length rates' = n"
      "\<forall>s < n. mark' ! s = (mark ! s \<and> \<not> (Suc state \<le> s \<and> 1 < g ! Suc s - g ! s))"
      "\<forall>i < length kept. kept' ! i =
            (kept ! i \<and> \<not> (\<exists>s < n. Suc state \<le> s \<and> mark ! s \<and> 1 < g ! Suc s - g ! s \<and> g ! s = i))"
      by (metis Suc_leI)
    have eq: "closeLoop m state (kept, mark, rates) = Some (kept', mark', rates')"
      using False s sz r(1) Suc.prems(1) by (auto simp add: closeLoop.simps[of m state kept mark rates])
    have m': "mark' ! t = (mark ! t \<and> \<not> (state \<le> t \<and> 1 < g ! Suc t - g ! t))" if "t < n" for t
      using r(5) that False by (cases "t = state") (auto simp add: Suc_le_eq)
    have k': "kept' ! i = (kept ! i \<and> \<not> (\<exists>t < n. state \<le> t \<and> mark ! t \<and> 1 < g ! Suc t - g ! t \<and> g ! t = i))"
      if "i < length kept" for i
    proof -
      have "(\<exists>t < n. state \<le> t \<and> mark ! t \<and> 1 < g ! Suc t - g ! t \<and> g ! t = i)
            \<longleftrightarrow> (\<exists>t < n. Suc state \<le> t \<and> mark ! t \<and> 1 < g ! Suc t - g ! t \<and> g ! t = i)"
        using False by (metis Suc_leI le_neq_implies_less Suc_leD)
      with r(6) that show ?thesis by simp
    qed
    from eq r(2,3,4) m' k' show ?thesis by blast
  next
    case True
    let ?kept1 = "kept[g ! state := False]" and ?mark1 = "mark[state := False]"
    let ?rates1 = "rates[state := 0]"
    from Suc.hyps(1)[OF d, of ?mark1 ?rates1 ?kept1] Suc.prems(1,2,3) s obtain kept' mark' rates' where
      r: "closeLoop m (Suc state) (?kept1, ?mark1, ?rates1) = Some (kept', mark', rates')"
      "length kept' = length kept" "length mark' = n" "length rates' = n"
      "\<forall>s < n. mark' ! s = (?mark1 ! s \<and> \<not> (Suc state \<le> s \<and> 1 < g ! Suc s - g ! s))"
      "\<forall>i < length kept. kept' ! i =
            (?kept1 ! i \<and> \<not> (\<exists>s < n. Suc state \<le> s \<and> ?mark1 ! s \<and> 1 < g ! Suc s - g ! s \<and> g ! s = i))"
      by (auto simp add: Suc_le_eq)
    have eq: "closeLoop m state (kept, mark, rates) = Some (kept', mark', rates')"
      using True s sz r(1) Suc.prems(1,2,3) gs len
      by (auto simp add: closeLoop.simps[of m state kept mark rates] g_def)
    have m': "mark' ! t = (mark ! t \<and> \<not> (state \<le> t \<and> 1 < g ! Suc t - g ! t))" if "t < n" for t
      using r(5) that True Suc.prems(1) by (cases "t = state") (auto simp add: Suc_le_eq)
    have k': "kept' ! i = (kept ! i \<and> \<not> (\<exists>t < n. state \<le> t \<and> mark ! t \<and> 1 < g ! Suc t - g ! t \<and> g ! t = i))"
      if i: "i < length kept" for i
    proof -
      have "(\<exists>t < n. state \<le> t \<and> mark ! t \<and> 1 < g ! Suc t - g ! t \<and> g ! t = i)
            \<longleftrightarrow> g ! state = i \<or> (\<exists>t < n. Suc state \<le> t \<and> ?mark1 ! t \<and> 1 < g ! Suc t - g ! t \<and> g ! t = i)"
        (is "?A \<longleftrightarrow> ?B \<or> ?C")
      proof
        assume ?A
        then obtain t where t: "t < n" "state \<le> t" "mark ! t" "1 < g ! Suc t - g ! t" "g ! t = i" by blast
        show "?B \<or> ?C"
        proof (cases "t = state")
          case True with t show ?thesis by simp
        next
          case False
          with t have "Suc state \<le> t" "?mark1 ! t" by auto
          with t show ?thesis by blast
        qed
      next
        assume "?B \<or> ?C"
        then show ?A
        proof
          assume ?B with True s show ?A by blast
        next
          assume ?C
          then obtain t where t: "t < n" "Suc state \<le> t" "?mark1 ! t" "1 < g ! Suc t - g ! t" "g ! t = i" by blast
          then have "mark ! t" by (metis Suc_n_not_le_n nth_list_update_neq)
          with t show ?A by (metis Suc_leD)
        qed
      qed
      moreover have "?kept1 ! i = (kept ! i \<and> g ! state \<noteq> i)"
        using i by (cases "g ! state = i") auto
      ultimately show ?thesis using r(6) i by auto
    qed
    from eq r(2,3,4) m' k' show ?thesis by blast
  qed
qed

lemma checkIsClosed_wf:
  assumes "wellformed ma"
  shows "checkIsClosed ma = Some (\<forall>s < getNumberOfStates ma. markovianStates ma ! s \<longrightarrow>
            rowGroupIndices (transitionMatrix ma) ! Suc s - rowGroupIndices (transitionMatrix ma) ! s \<le> 1)"
proof -
  let ?g = "rowGroupIndices (transitionMatrix ma)" and ?n = "getNumberOfStates ma"
  from assms have w: "?g \<noteq> []" "\<forall>s < ?n. ?g ! s < ?g ! Suc s" "length (markovianStates ma) = ?n"
    by (simp_all add: wellformed_iff Let_def)
  from w(1) have len: "length ?g = Suc ?n" by (simp add: getNumberOfStates_def)
  from checkIsClosedFrom_spec[OF w(2) len, of 0 "markovianStates ma"] w(3)
  show ?thesis by (simp add: checkIsClosed_def)
qed

lemma markovian_single_choice:
  assumes "wellformed ma" "checkIsClosed ma = Some True" "s < getNumberOfStates ma"
    "isMarkovianState ma s = Some True"
  shows "getRowGroupSize (transitionMatrix ma) s = Some 1"
proof -
  let ?g = "rowGroupIndices (transitionMatrix ma)" and ?n = "getNumberOfStates ma"
  from assms(1) have w: "?g \<noteq> []" "\<forall>s < ?n. ?g ! s < ?g ! Suc s" "length (markovianStates ma) = ?n"
    by (simp_all add: wellformed_iff Let_def)
  from w(1) have len: "length ?g = Suc ?n" by (simp add: getNumberOfStates_def)
  from assms(4) w(3) assms(3) have "markovianStates ma ! s" by (simp add: isMarkovianState_def)
  with assms(2,3) checkIsClosed_wf[OF assms(1)] have "?g ! Suc s - ?g ! s \<le> 1" by simp
  moreover have "0 < ?g ! Suc s - ?g ! s" using w(2) assms(3) by simp
  ultimately have "?g ! Suc s - ?g ! s = 1" by simp
  with getRowGroupSize_wf(1)[OF w(2) len assms(3)] show ?thesis by simp
qed

lemma wellformed_closed_update: "wellformed (ma\<lparr>closed := c\<rparr>) = wellformed ma"
  by (simp add: wellformed_def getNumberOfStates_def getNumberOfChoices_def)

lemma checkIsClosed_closed_update: "checkIsClosed (ma\<lparr>closed := c\<rparr>) = checkIsClosed ma"
  by (simp add: checkIsClosed_def)

lemma closeLoop_result:
  fixes ma :: "'v::zero MarkovAutomaton"
  assumes wf: "wellformed ma"
  defines "g \<equiv> rowGroupIndices (transitionMatrix ma)"
  defines "n \<equiv> getNumberOfStates ma"
  shows "\<exists>kept mark rates.
      closeLoop (transitionMatrix ma) 0
        (replicate (getNumberOfChoices ma) True, markovianStates ma, exitRates ma)
        = Some (kept, mark, rates) \<and>
      length kept = getNumberOfChoices ma \<and> length mark = n \<and> length rates = n \<and>
      (\<forall>s < n. mark ! s = (markovianStates ma ! s \<and> \<not> 1 < g ! Suc s - g ! s)) \<and>
      (\<forall>i < getNumberOfChoices ma. kept ! i =
          (\<not> (\<exists>s < n. markovianStates ma ! s \<and> 1 < g ! Suc s - g ! s \<and> g ! s = i)))"
proof -
  from wf have w: "g \<noteq> []" "g ! n = getNumberOfChoices ma" "\<forall>s < n. g ! s < g ! Suc s"
    "length (markovianStates ma) = n" "length (exitRates ma) = n"
    by (simp_all add: wellformed_iff Let_def g_def n_def)
  from w(1) have len: "length g = Suc n" by (simp add: getNumberOfStates_def g_def n_def)
  from closeLoop_spec[of n "transitionMatrix ma" "markovianStates ma" "exitRates ma"
      "replicate (getNumberOfChoices ma) True" 0] w len
  show ?thesis by (simp add: g_def)
qed

text \<open>After the loop: the automaton with the updated Markovian states is closed.\<close>

lemma after_loop:
  fixes ma :: "'v::zero MarkovAutomaton"
  assumes wf: "wellformed ma"
    and loop: "closeLoop (transitionMatrix ma) 0
        (replicate (getNumberOfChoices ma) True, markovianStates ma, exitRates ma)
        = Some (kept, mark, rates)"
  defines "ma1 \<equiv> ma\<lparr>markovianStates := mark, exitRates := rates\<rparr>"
  shows "wellformed ma1" "checkIsClosed ma1 = Some True"
    "\<forall>s < getNumberOfStates ma. mark ! s \<longrightarrow> keptInGroup (transitionMatrix ma) kept s = 1"
proof -
  let ?g = "rowGroupIndices (transitionMatrix ma)" and ?n = "getNumberOfStates ma"
  from closeLoop_result[OF wf] loop have r:
    "length kept = getNumberOfChoices ma" "length mark = ?n" "length rates = ?n"
    "\<forall>s < ?n. mark ! s = (markovianStates ma ! s \<and> \<not> 1 < ?g ! Suc s - ?g ! s)"
    "\<forall>i < getNumberOfChoices ma. kept ! i =
          (\<not> (\<exists>s < ?n. markovianStates ma ! s \<and> 1 < ?g ! Suc s - ?g ! s \<and> ?g ! s = i))"
    by auto
  from wf have w: "?g ! ?n = getNumberOfChoices ma" "\<forall>s < ?n. ?g ! s < ?g ! Suc s"
    by (simp_all add: wellformed_iff Let_def)
  show wf1: "wellformed ma1"
    using wf r(2,3) by (simp add: wellformed_def ma1_def getNumberOfStates_def getNumberOfChoices_def Let_def)
  show "checkIsClosed ma1 = Some True"
    using checkIsClosed_wf[OF wf1] r(4) by (simp add: ma1_def getNumberOfStates_def)
  show "\<forall>s < ?n. mark ! s \<longrightarrow> keptInGroup (transitionMatrix ma) kept s = 1"
  proof (intro allI impI)
    fix s assume s: "s < ?n" and ms: "mark ! s"
    from r(4) s ms have le: "\<not> 1 < ?g ! Suc s - ?g ! s" by simp
    moreover have "?g ! s < ?g ! Suc s" using w(2) s by simp
    ultimately have one: "?g ! Suc s = Suc (?g ! s)" by linarith
    have lt: "?g ! s < getNumberOfChoices ma"
      using strict_mono_nth(2)[OF w(2), of s ?n] s w(1) by simp
    have "kept ! (?g ! s)"
    proof -
      have "\<not> (\<exists>t < ?n. markovianStates ma ! t \<and> 1 < ?g ! Suc t - ?g ! t \<and> ?g ! t = ?g ! s)"
      proof
        assume "\<exists>t < ?n. markovianStates ma ! t \<and> 1 < ?g ! Suc t - ?g ! t \<and> ?g ! t = ?g ! s"
        then obtain t where t: "t < ?n" "1 < ?g ! Suc t - ?g ! t" "?g ! t = ?g ! s" by blast
        have "t = s"
        proof (rule ccontr)
          assume "t \<noteq> s"
          then consider "t < s" | "s < t" by linarith
          then show False
          proof cases
            case 1
            with strict_mono_nth(2)[OF w(2), of t s] s t(3) show False by simp
          next
            case 2
            with strict_mono_nth(2)[OF w(2), of s t] t(1,3) show False by simp
          qed
        qed
        with t(2) le show False by simp
      qed
      with r(5) lt show ?thesis by simp
    qed
    with one show "keptInGroup (transitionMatrix ma) kept s = 1"
      by (simp add: keptInGroup_def)
  qed
qed

lemma subsystem_closed:
  assumes so: "subsystemOf ma1 kept sub"
    and one: "\<forall>s < getNumberOfStates ma1. markovianStates ma1 ! s \<longrightarrow> keptInGroup (transitionMatrix ma1) kept s = 1"
  shows "wellformed sub" "checkIsClosed sub = Some True"
proof -
  let ?g = "rowGroupIndices (transitionMatrix sub)" and ?n = "getNumberOfStates sub"
  from so show wf: "wellformed sub" by (simp add: subsystemOf_def)
  from wf have w: "?g \<noteq> []" "\<forall>s < ?n. ?g ! s < ?g ! Suc s"
    by (simp_all add: wellformed_iff Let_def)
  from w(1) have len: "length ?g = Suc ?n" by (simp add: getNumberOfStates_def)
  have "?g ! Suc s' - ?g ! s' \<le> 1" if s': "s' < ?n" and m: "markovianStates sub ! s'" for s'
  proof -
    from so have "\<forall>s' \<in> {0..<?n}. \<exists>s \<in> {0..<getNumberOfStates ma1}.
        markovianStates sub ! s' = markovianStates ma1 ! s \<and>
        getRowGroupSize (transitionMatrix sub) s' = Some (keptInGroup (transitionMatrix ma1) kept s)"
      by (simp add: subsystemOf_def list_all_iff list_ex_iff)
    with s' obtain s where s: "s < getNumberOfStates ma1"
      "markovianStates sub ! s' = markovianStates ma1 ! s"
      "getRowGroupSize (transitionMatrix sub) s' = Some (keptInGroup (transitionMatrix ma1) kept s)"
      by force
    with m one have "getRowGroupSize (transitionMatrix sub) s' = Some 1" by simp
    with getRowGroupSize_wf(1)[OF w(2) len s'] show ?thesis by simp
  qed
  with checkIsClosed_wf[OF wf] show "checkIsClosed sub = Some True" by simp
qed

section \<open>C10: closing a Markov automaton\<close>

text \<open>
  An automaton with a hybrid state (state 0: a Markovian choice and a probabilistic one),
  a stand-in for the subsystem builder that keeps every state and drops the choices that
  are not kept, and the automaton \<open>close\<close> is expected to produce.
\<close>

definition exampleMA :: "rat MarkovAutomaton" where
  "exampleMA =
     \<lparr>transitionMatrix =
        \<lparr>rowGroupIndices = [0, 2, 3, 4],
         matrixRows = [[(1, 3)], [(2, 1)], [(0, 2)], [(2, 1)]]\<rparr>,
      markovianStates = [True, True, False],
      exitRates = [3, 2, 0],
      closed = False\<rparr>"

definition exampleBuilder ::
  "rat MarkovAutomaton \<Rightarrow> bool list \<Rightarrow> bool list \<Rightarrow> bool \<Rightarrow> rat MarkovAutomaton option" where
  "exampleBuilder ma subsystemStates keptChoices keepUnreachableStates =
     (let m = \<lparr>rowGroupIndices =
                   map (\<lambda>i. length (filter (\<lambda>b. b) (take i keptChoices)))
                     (rowGroupIndices (transitionMatrix ma)),
                matrixRows = map snd (filter fst (zip keptChoices (matrixRows (transitionMatrix ma))))\<rparr>
      in map_option
           (\<lambda>c. \<lparr>transitionMatrix = m, markovianStates = markovianStates ma,
                 exitRates = exitRates ma, closed = c\<rparr>)
           (checkIsClosedFrom m 0 (markovianStates ma)))"

definition exampleClosed :: "rat MarkovAutomaton" where
  "exampleClosed =
     \<lparr>transitionMatrix =
        \<lparr>rowGroupIndices = [0, 1, 2, 3],
         matrixRows = [[(2, 1)], [(0, 2)], [(2, 1)]]\<rparr>,
      markovianStates = [False, True, False],
      exitRates = [0, 2, 0],
      closed = True\<rparr>"

lemma example_loop:
  "closeLoop (transitionMatrix exampleMA) 0
     (replicate (getNumberOfChoices exampleMA) True, markovianStates exampleMA, exitRates exampleMA)
   = Some ([False, True, True, True], [False, True, False], [0, 2, 0])"
  by (simp add: exampleMA_def getNumberOfChoices_def closeLoop.simps getRowGroupSize_def)

lemma example_close: "close exampleBuilder exampleMA = Some exampleClosed"
  using example_loop
  by (simp add: close_def exampleBuilder_def exampleClosed_def getNumberOfStates_def
      getRowGroupSize_def Let_def)
    (simp add: exampleMA_def)

text \<open>
  Claim C10: after \<open>MarkovAutomaton::close()\<close> returns, every Markovian state has exactly
  one choice (\<open>checkIsClosed()\<close> holds) and \<open>isClosed()\<close> returns true; on an automaton
  for which \<open>isClosed()\<close> is already true, \<open>close()\<close> changes nothing, so closing twice is
  closing once.

  The automaton is well formed, and its flag \<open>closed\<close>, when set, is right: every
  constructor ends with \<open>closed = this->checkIsClosed()\<close>. The subsystem builder enters
  through one assumption on the call \<open>close\<close> makes: what it returns is a subsystem in
  the sense of \<open>subsystemOf\<close>. Under these, \<open>close\<close> fails only when the builder
  throws.
\<close>

theorem C10_close:
  fixes ma :: "'v::zero MarkovAutomaton"
  assumes wf: "wellformed ma"
    and inv: "closed ma \<longrightarrow> checkIsClosed ma = Some True"
    and builder: "\<forall>keptChoices markovian rates sub.
          closeLoop (transitionMatrix ma) 0
            (replicate (getNumberOfChoices ma) True, markovianStates ma, exitRates ma)
            = Some (keptChoices, markovian, rates) \<and>
          buildSubsystem (ma\<lparr>markovianStates := markovian, exitRates := rates\<rparr>)
            (replicate (getNumberOfStates ma) True) keptChoices False = Some sub
          \<longrightarrow> subsystemOf (ma\<lparr>markovianStates := markovian, exitRates := rates\<rparr>) keptChoices sub"
  shows "(closed ma \<longrightarrow> close buildSubsystem ma = Some ma) \<and>
         (\<forall>ma'. close buildSubsystem ma = Some ma' \<longrightarrow>
            isClosed ma' \<and> checkIsClosed ma' = Some True \<and>
            (\<forall>s < getNumberOfStates ma'.
               isMarkovianState ma' s = Some True \<longrightarrow> getRowGroupSize (transitionMatrix ma') s = Some 1) \<and>
            close buildSubsystem ma' = Some ma') \<and>
         (close buildSubsystem ma = None \<longrightarrow>
            \<not> closed ma \<and>
            (\<exists>keptChoices markovian rates.
               closeLoop (transitionMatrix ma) 0
                 (replicate (getNumberOfChoices ma) True, markovianStates ma, exitRates ma)
                 = Some (keptChoices, markovian, rates) \<and>
               \<not> list_all (\<lambda>b. b) keptChoices \<and>
               buildSubsystem (ma\<lparr>markovianStates := markovian, exitRates := rates\<rparr>)
                 (replicate (getNumberOfStates ma) True) keptChoices False = None))"
proof (cases "closed ma")
  case True
  then have c: "close buildSubsystem ma = Some ma" by (simp add: close_def)
  from True inv have ck: "checkIsClosed ma = Some True" by simp
  have "getRowGroupSize (transitionMatrix ma) s = Some 1"
    if "s < getNumberOfStates ma" "isMarkovianState ma s = Some True" for s
    using markovian_single_choice[OF wf ck that] .
  with c True ck show ?thesis by (simp add: isClosed_def)
next
  case False
  from closeLoop_result[OF wf] obtain kept mark rates where
    loop: "closeLoop (transitionMatrix ma) 0
        (replicate (getNumberOfChoices ma) True, markovianStates ma, exitRates ma)
        = Some (kept, mark, rates)" and lm: "length mark = getNumberOfStates ma" by blast
  let ?ma1 = "ma\<lparr>markovianStates := mark, exitRates := rates\<rparr>"
  note al = after_loop[OF wf loop]
  have n1: "getNumberOfStates ?ma1 = getNumberOfStates ma" by (simp add: getNumberOfStates_def)
  have good: "isClosed ma' \<and> checkIsClosed ma' = Some True \<and>
            (\<forall>s < getNumberOfStates ma'.
               isMarkovianState ma' s = Some True \<longrightarrow> getRowGroupSize (transitionMatrix ma') s = Some 1) \<and>
            close buildSubsystem ma' = Some ma'"
    if w': "wellformed a" and c': "checkIsClosed a = Some True" and ma': "ma' = a\<lparr>closed := True\<rparr>" for a ma'
  proof -
    have w: "wellformed ma'" using w' ma' by (simp add: wellformed_closed_update)
    have c: "checkIsClosed ma' = Some True" using c' ma' by (simp add: checkIsClosed_closed_update)
    have "getRowGroupSize (transitionMatrix ma') s = Some 1"
      if "s < getNumberOfStates ma'" "isMarkovianState ma' s = Some True" for s
      using markovian_single_choice[OF w c that] .
    with c ma' show ?thesis by (simp add: isClosed_def close_def)
  qed
  show ?thesis
  proof (cases "list_all (\<lambda>b. b) kept")
    case True
    with False loop have c: "close buildSubsystem ma = Some (?ma1\<lparr>closed := True\<rparr>)"
      by (simp add: close_def)
    from good[OF al(1,2) refl] c False show ?thesis by simp
  next
    case nk: False
    show ?thesis
    proof (cases "buildSubsystem ?ma1 (replicate (getNumberOfStates ma) True) kept False")
      case None
      with False loop nk have "close buildSubsystem ma = None" by (simp add: close_def n1)
      with False loop nk None show ?thesis by auto
    next
      case (Some sub)
      with builder loop have so: "subsystemOf ?ma1 kept sub" by blast
      have "\<forall>s < getNumberOfStates ?ma1. markovianStates ?ma1 ! s \<longrightarrow>
              keptInGroup (transitionMatrix ?ma1) kept s = 1"
        using al(3) by (simp add: n1)
      from subsystem_closed[OF so this] have s: "wellformed sub" "checkIsClosed sub = Some True" .
      from False loop nk Some have c: "close buildSubsystem ma = Some (sub\<lparr>closed := True\<rparr>)"
        by (simp add: close_def n1)
      from good[OF s refl] c False show ?thesis by simp
    qed
  qed
qed

theorem C10_close_witness:
  "wellformed exampleMA \<and> \<not> closed exampleMA \<and>
   close exampleBuilder exampleMA = Some exampleClosed \<and>
   isClosed exampleClosed \<and> checkIsClosed exampleClosed = Some True \<and>
   isMarkovianState exampleClosed 1 = Some True \<and>
   getRowGroupSize (transitionMatrix exampleClosed) 1 = Some 1 \<and>
   close exampleBuilder exampleClosed = Some exampleClosed"
proof -
  have wf: "wellformed exampleMA"
    by (simp add: wellformed_def exampleMA_def getNumberOfStates_def getNumberOfChoices_def)
  have nc: "\<not> closed exampleMA" by (simp add: exampleMA_def)
  then have inv: "closed exampleMA \<longrightarrow> checkIsClosed exampleMA = Some True" by simp
  have builder: "\<forall>keptChoices markovian rates sub.
          closeLoop (transitionMatrix exampleMA) 0
            (replicate (getNumberOfChoices exampleMA) True, markovianStates exampleMA, exitRates exampleMA)
            = Some (keptChoices, markovian, rates) \<and>
          exampleBuilder (exampleMA\<lparr>markovianStates := markovian, exitRates := rates\<rparr>)
            (replicate (getNumberOfStates exampleMA) True) keptChoices False = Some sub
          \<longrightarrow> subsystemOf (exampleMA\<lparr>markovianStates := markovian, exitRates := rates\<rparr>) keptChoices sub"
  proof (intro allI impI, elim conjE)
    fix keptChoices markovian rates sub
    assume "closeLoop (transitionMatrix exampleMA) 0
            (replicate (getNumberOfChoices exampleMA) True, markovianStates exampleMA, exitRates exampleMA)
            = Some (keptChoices, markovian, rates)"
    with example_loop have e: "keptChoices = [False, True, True, True]" "markovian = [False, True, False]"
      "rates = [0, 2, 0]" by simp_all
    assume "exampleBuilder (exampleMA\<lparr>markovianStates := markovian, exitRates := rates\<rparr>)
            (replicate (getNumberOfStates exampleMA) True) keptChoices False = Some sub"
    then have sub: "sub = exampleClosed\<lparr>closed := True\<rparr>"
      unfolding e
      by (auto simp add: exampleBuilder_def exampleClosed_def getRowGroupSize_def Let_def exampleMA_def
          numeral_2_eq_2 numeral_3_eq_3)
    show "subsystemOf (exampleMA\<lparr>markovianStates := markovian, exitRates := rates\<rparr>) keptChoices sub"
      unfolding e sub
      by (simp add: subsystemOf_def wellformed_def exampleClosed_def exampleMA_def
          getNumberOfStates_def getNumberOfChoices_def getRowGroupSize_def keptInGroup_def)
  qed
  from C10_close[of exampleMA exampleBuilder, OF wf inv builder] example_close
  have "isClosed exampleClosed \<and> checkIsClosed exampleClosed = Some True \<and>
        (\<forall>s < getNumberOfStates exampleClosed.
           isMarkovianState exampleClosed s = Some True \<longrightarrow>
           getRowGroupSize (transitionMatrix exampleClosed) s = Some 1) \<and>
        close exampleBuilder exampleClosed = Some exampleClosed"
    by blast
  moreover have "1 < getNumberOfStates exampleClosed" "isMarkovianState exampleClosed 1 = Some True"
    by (simp_all add: exampleClosed_def getNumberOfStates_def isMarkovianState_def)
  ultimately show ?thesis using wf nc example_close by blast
qed

section \<open>The until probabilities (SparseDtmcEliminationModelChecker.cpp, in src/related-tools.md)\<close>

text \<open>
  \<open>BitVector::isDisjointFrom\<close> asserts equal lengths and walks the buckets of this vector,
  reading the other vector at the same position; it answers false at the first pair of
  buckets with a common bit.
\<close>

fun disjointBuckets :: "u64 list \<Rightarrow> u64 list \<Rightarrow> bool option" where
  "disjointBuckets [] ys = Some True"
| "disjointBuckets (x # xs) [] = None"
| "disjointBuckets (x # xs) (y # ys) = (if x AND y \<noteq> 0 then Some False else disjointBuckets xs ys)"

definition isDisjointFrom :: "BitVector \<Rightarrow> BitVector \<Rightarrow> bool option" where
  "isDisjointFrom a b =
     (if bitCount a = bitCount b then disjointBuckets (bucketVector a) (bucketVector b) else None)"

text \<open>
  \<open>*bv.begin()\<close>: the iterator that \<open>begin()\<close> returns stands at the first set index (at
  \<open>bitCount\<close> if there is none), and \<open>operator*\<close> returns that index.
\<close>

definition firstSetIndex :: "BitVector \<Rightarrow> nat option" where
  "firstSetIndex bv = getNextSetIndex (bucketVector bv) 0 (bitCount bv)"

text \<open>
  \<open>SparseDtmcEliminationModelChecker::computeUntilProbabilities\<close>. The model must have
  exactly one initial state (an exception otherwise). The states with probability 0 and 1
  come from \<open>storm::utility::graph::performProb01\<close>, which is not among the sources: its
  result is the parameter \<open>statesWithProbability01\<close>. The maybe states are the complement
  of their union. If the initial states are disjoint from the maybe states, the procedure
  returns at once, with zero if the initial state has probability 0 and with one otherwise.

  The rest of the procedure restricts the matrix to the reachable maybe states
  (\<open>getReachableStates\<close>, \<open>getConstrainedRowSumVector\<close>, \<open>getSubmatrix\<close> and \<open>transpose\<close>
  are not among the sources) and hands it to \<open>computeReachabilityValue\<close>, which eliminates
  the states. It is the parameter \<open>eliminate\<close>, which receives the maybe states and returns
  the value it computes together with the number of calls of \<open>eliminateState\<close> it makes.
  The model returns the check result (the initial state and its value) and that number.
\<close>

definition computeUntilProbabilities ::
  "BitVector \<Rightarrow> BitVector \<times> BitVector \<Rightarrow> (BitVector \<Rightarrow> ('v::field \<times> nat) option) \<Rightarrow>
   ((nat \<times> 'v) \<times> nat) option" where
  "computeUntilProbabilities initialStates statesWithProbability01 eliminate =
     do {
       numberOfInitialStates \<leftarrow> getNumberOfSetBits initialStates;
       if numberOfInitialStates \<noteq> 1 then None
       else
         do {
           initialState \<leftarrow> firstSetIndex initialStates;
           let statesWithProbability0 = fst statesWithProbability01;
           let statesWithProbability1 = snd statesWithProbability01;
           known \<leftarrow> operator_or statesWithProbability0 statesWithProbability1;
           maybeStates \<leftarrow> operator_not known;
           disjoint \<leftarrow> isDisjointFrom initialStates maybeStates;
           if disjoint then
             do {
               first \<leftarrow> firstSetIndex initialStates;
               inZero \<leftarrow> bv_get statesWithProbability0 first;
               Some ((initialState, if inZero then 0 else 1), 0)
             }
           else
             do {
               (val, eliminations) \<leftarrow> eliminate maybeStates;
               Some ((initialState, val), eliminations)
             }
         }
     }"

subsection \<open>Union, complement and disjointness on the bits\<close>

lemma zipBuckets_map2:
  "length xs = k \<Longrightarrow> length ys = k \<Longrightarrow> zipBuckets f k xs ys = Some (map2 f xs ys)"
proof (induction k arbitrary: xs ys)
  case 0
  then show ?case by simp
next
  case (Suc k)
  then obtain x xs' y ys' where "xs = x # xs'" "ys = y # ys'"
    by (metis length_Suc_conv)
  with Suc show ?case by simp
qed

lemma copyBuckets_map: "length xs = k \<Longrightarrow> copyBuckets f k xs = Some (map f xs)"
proof (induction k arbitrary: xs)
  case 0
  then show ?case by simp
next
  case (Suc k)
  then obtain x xs' where "xs = x # xs'" by (metis length_Suc_conv)
  with Suc show ?case by simp
qed

lemma lowMask_Some: "k < 64 \<Longrightarrow> lowMask k = Some (mask k)"
  by (simp add: lowMask_def shl1_def mask_eq_exp_minus_1)

lemma take_bit_and_not_mask: "take_bit k ((w::u64) AND NOT (mask k)) = 0"
  by (rule bit_word_eqI) (simp add: bit_simps)

lemma testBit_butlast_snoc:
  assumes "bs \<noteq> []" "j < 64 * length bs"
  shows "testBit (butlast bs @ [w]) j
           = (if j div 64 = length bs - 1 then bit w (63 - j mod 64) else testBit bs j)"
proof -
  have "butlast bs @ [w] = bs[length bs - 1 := w]"
    using assms(1) by (metis append_butlast_last_id length_butlast list_update_length)
  moreover have "j div 64 < length bs" using assms(2) by (simp add: less_mult_imp_div_less mult.commute)
  ultimately show ?thesis by (simp add: testBit_update)
qed

lemma truncateLastBucket_spec:
  assumes "length (bucketVector bv) = bucketCountFor (bitCount bv)"
  shows "\<exists>bv'. truncateLastBucket bv = Some bv' \<and> bv_invariant bv' \<and> bitCount bv' = bitCount bv \<and>
           (\<forall>i < bitCount bv. testBit (bucketVector bv') i = testBit (bucketVector bv) i)"
proof (cases "bitCount bv mod 64 = 0")
  case True
  with assms show ?thesis by (simp add: truncateLastBucket_def bv_invariant_def)
next
  case False
  let ?n = "bitCount bv" and ?bs = "bucketVector bv"
  let ?k = "64 - ?n mod 64"
  define w where "w = last ?bs AND NOT (mask ?k)"
  let ?bv' = "bv\<lparr>bucketVector := butlast ?bs @ [w]\<rparr>"
  from False assms have len: "length ?bs = ?n div 64 + 1" by (simp add: bucketCountFor_def)
  then have ne: "?bs \<noteq> []" by auto
  have k: "?k < 64" using False by simp
  have eq: "truncateLastBucket bv = Some ?bv'"
    using False ne by (simp add: truncateLastBucket_def lowMask_Some[OF k] updateBack_def w_def)
  have tb: "take_bit ?k w = 0" unfolding w_def by (rule take_bit_and_not_mask)
  have "length (butlast ?bs @ [w]) = bucketCountFor ?n" using assms len by simp
  then have inv: "bv_invariant ?bv'"
    using False tb by (simp add: bv_invariant_def)
  have wbit: "bit w b = bit (last ?bs) b" if "\<not> b < ?k" for b
    using that bit_imp_le_length[of "last ?bs" b] unfolding w_def by (auto simp add: bit_simps)
  have bits: "testBit (bucketVector ?bv') i = testBit ?bs i" if i: "i < ?n" for i
  proof -
    have cap: "i < 64 * length ?bs" using i len div_mult_mod_eq[of ?n 64] by simp
    show ?thesis
    proof (cases "i div 64 = length ?bs - 1")
      case False
      with testBit_butlast_snoc[OF ne cap, of w] show ?thesis by simp
    next
      case True
      then have d: "i div 64 = ?n div 64" using len by simp
      have "i mod 64 < ?n mod 64"
        using i d div_mult_mod_eq[of ?n 64] div_mult_mod_eq[of i 64] by linarith
      then have "\<not> 63 - i mod 64 < ?k" by simp
      then have "bit w (63 - i mod 64) = bit (last ?bs) (63 - i mod 64)" by (rule wbit)
      moreover have "last ?bs = ?bs ! (i div 64)" using True ne by (simp add: last_conv_nth)
      ultimately show ?thesis
        using True testBit_butlast_snoc[OF ne cap, of w] by (simp add: testBit_def)
    qed
  qed
  from eq inv bits show ?thesis by auto
qed

lemma operator_or_spec:
  assumes "bv_invariant a" "bv_invariant b" "bitCount a = bitCount b"
  shows "\<exists>u. operator_or a b = Some u \<and> bitCount u = bitCount a \<and>
           length (bucketVector u) = bucketCountFor (bitCount a) \<and>
           (\<forall>j < bitCount a. testBit (bucketVector u) j
              = (testBit (bucketVector a) j \<or> testBit (bucketVector b) j))"
proof -
  let ?n = "bitCount a"
  let ?bs = "map2 (\<lambda>x y. x OR y) (bucketVector a) (bucketVector b)"
  let ?u = "\<lparr>bitCount = ?n, bucketVector = ?bs\<rparr>"
  have la: "length (bucketVector a) = bucketCountFor ?n" and lb: "length (bucketVector b) = bucketCountFor ?n"
    using assms by (simp_all add: bv_invariant_def)
  have "operator_or a b = Some ?u"
    using assms(3) zipBuckets_map2[OF la lb]
    by (simp add: operator_or_def binaryOp_def BitVector_new_False)
  moreover have "testBit ?bs j = (testBit (bucketVector a) j \<or> testBit (bucketVector b) j)"
    if "j < ?n" for j
  proof -
    have "j div 64 < bucketCountFor ?n"
      using that bucketCountFor_bound[of ?n] by (simp add: less_mult_imp_div_less mult.commute)
    then show ?thesis using la lb by (simp add: testBit_def bit_or_iff)
  qed
  ultimately show ?thesis using la lb by simp
qed

lemma operator_not_spec:
  assumes "length (bucketVector a) = bucketCountFor (bitCount a)"
  shows "\<exists>m. operator_not a = Some m \<and> bv_invariant m \<and> bitCount m = bitCount a \<and>
           (\<forall>j < bitCount a. testBit (bucketVector m) j = (\<not> testBit (bucketVector a) j))"
proof -
  let ?n = "bitCount a"
  let ?r = "\<lparr>bitCount = ?n, bucketVector = map (\<lambda>x. NOT x) (bucketVector a)\<rparr>"
  have "length (bucketVector ?r) = bucketCountFor (bitCount ?r)" using assms by simp
  from truncateLastBucket_spec[OF this] obtain m where
    m: "truncateLastBucket ?r = Some m" "bv_invariant m" "bitCount m = ?n"
    "\<forall>i < ?n. testBit (bucketVector m) i = testBit (bucketVector ?r) i" by auto
  have "operator_not a = Some m"
    using m(1) copyBuckets_map[OF assms, of "\<lambda>x. NOT x"]
    by (simp add: operator_not_def BitVector_new_False)
  moreover have "testBit (bucketVector ?r) j = (\<not> testBit (bucketVector a) j)" if "j < ?n" for j
  proof -
    have "j div 64 < bucketCountFor ?n"
      using that bucketCountFor_bound[of ?n] by (simp add: less_mult_imp_div_less mult.commute)
    moreover have "63 - j mod 64 < (64::nat)" by simp
    ultimately show ?thesis using assms by (simp add: testBit_def bit_not_iff)
  qed
  ultimately show ?thesis using m by auto
qed

lemma disjointBuckets_spec:
  "length xs \<le> length ys \<Longrightarrow>
   disjointBuckets xs ys = Some (\<forall>k < length xs. xs ! k AND ys ! k = 0)"
proof (induction xs ys rule: disjointBuckets.induct)
  case (1 ys)
  then show ?case by simp
next
  case (2 x xs)
  then show ?case by simp
next
  case (3 x xs y ys)
  show ?case
  proof (cases "x AND y = 0")
    case True
    with 3 show ?thesis by (auto simp add: less_Suc_eq_0_disj)
  next
    case False
    then show ?thesis by auto
  qed
qed

lemma and_zero_bits:
  "(x :: u64) AND y = 0 \<longleftrightarrow> (\<forall>b < 64. \<not> (bit x (63 - b) \<and> bit y (63 - b)))"
proof
  assume "x AND y = 0"
  then have "\<not> bit (x AND y) n" for n by simp
  then show "\<forall>b < 64. \<not> (bit x (63 - b) \<and> bit y (63 - b))" by (simp add: bit_and_iff)
next
  assume a: "\<forall>b < 64. \<not> (bit x (63 - b) \<and> bit y (63 - b))"
  show "x AND y = 0"
  proof (rule ccontr)
    assume "x AND y \<noteq> 0"
    then obtain n where n: "n < 64" "bit (x AND y) n" using word_neq_0_bit by blast
    from n(1) have "63 - n < 64" "63 - (63 - n) = n" by simp_all
    with a n(2) show False by (metis bit_and_iff)
  qed
qed

lemma buckets_disjoint_iff:
  "(\<forall>k < len. (xs ! k :: u64) AND ys ! k = 0)
     \<longleftrightarrow> (\<forall>j < 64 * len. \<not> (testBit xs j \<and> testBit ys j))"
proof
  assume a: "\<forall>k < len. xs ! k AND ys ! k = 0"
  show "\<forall>j < 64 * len. \<not> (testBit xs j \<and> testBit ys j)"
  proof (intro allI impI)
    fix j assume "j < 64 * len"
    then have "j div 64 < len" by (simp add: less_mult_imp_div_less mult.commute)
    with a have "xs ! (j div 64) AND ys ! (j div 64) = 0" by simp
    then show "\<not> (testBit xs j \<and> testBit ys j)"
      unfolding and_zero_bits testBit_def by simp
  qed
next
  assume a: "\<forall>j < 64 * len. \<not> (testBit xs j \<and> testBit ys j)"
  show "\<forall>k < len. xs ! k AND ys ! k = 0"
  proof (intro allI impI)
    fix k assume k: "k < len"
    show "xs ! k AND ys ! k = 0"
      unfolding and_zero_bits
    proof (intro allI impI)
      fix b :: nat assume b: "b < 64"
      have "64 * k + b < 64 * len" using k b by simp
      with a have "\<not> (testBit xs (64 * k + b) \<and> testBit ys (64 * k + b))" by blast
      moreover have "(64 * k + b) div 64 = k" "(64 * k + b) mod 64 = b" using b by simp_all
      ultimately show "\<not> (bit (xs ! k) (63 - b) \<and> bit (ys ! k) (63 - b))"
        by (simp add: testBit_def)
    qed
  qed
qed

lemma isDisjointFrom_spec:
  assumes "bitCount a = bitCount b" "length (bucketVector a) = length (bucketVector b)"
  shows "isDisjointFrom a b
           = Some (\<forall>j < 64 * length (bucketVector a).
                     \<not> (testBit (bucketVector a) j \<and> testBit (bucketVector b) j))"
  using assms disjointBuckets_spec[of "bucketVector a" "bucketVector b"]
    buckets_disjoint_iff[of "length (bucketVector a)" "bucketVector a" "bucketVector b"]
  by (simp add: isDisjointFrom_def)

lemma firstSetIndex_single:
  assumes "bv_invariant bv" "setBits bv = [i]"
  shows "firstSetIndex bv = Some i"
proof -
  from getNextSetIndex_spec[OF invariant_capacity[OF assms(1)], of 0] obtain r where
    r: "getNextSetIndex (bucketVector bv) 0 (bitCount bv) = Some r"
    "isNext (bucketVector bv) 0 (bitCount bv) r" by blast
  from assms(2) have "i \<in> set (setBits bv)" by simp
  then have i: "i < bitCount bv" "testBit (bucketVector bv) i" by (simp_all add: setBits_member)
  from r(2) have n: "r \<le> bitCount bv" "\<forall>j. j < r \<longrightarrow> \<not> testBit (bucketVector bv) j"
    "r < bitCount bv \<longrightarrow> testBit (bucketVector bv) r" by (simp_all add: isNext_iff)
  from n(2) i(2) have "r \<le> i" by (meson not_le)
  with i(1) n(3) have "r < bitCount bv" "testBit (bucketVector bv) r" by simp_all
  then have "r \<in> set (setBits bv)" by (simp add: setBits_member)
  with assms(2) have "r = i" by simp
  with r(1) show ?thesis by (simp add: firstSetIndex_def)
qed

section \<open>C6: the initial state has probability 0 or 1\<close>

text \<open>
  A model of three states with the initial state 0; state 1 has probability 0, the states
  0 and 2 have probability 1.
\<close>

definition exampleInitial :: BitVector where
  "exampleInitial = \<lparr>bitCount = 3, bucketVector = [0x8000000000000000]\<rparr>"

definition exampleProb0 :: BitVector where
  "exampleProb0 = \<lparr>bitCount = 3, bucketVector = [0x4000000000000000]\<rparr>"

definition exampleProb1 :: BitVector where
  "exampleProb1 = \<lparr>bitCount = 3, bucketVector = [0xA000000000000000]\<rparr>"

lemma example_C6:
  "bv_invariant exampleInitial" "bv_invariant exampleProb0" "bv_invariant exampleProb1"
  "bitCount exampleProb0 = bitCount exampleInitial" "bitCount exampleProb1 = bitCount exampleInitial"
  by (simp_all add: bv_invariant_def exampleInitial_def exampleProb0_def exampleProb1_def bucketCountFor_def)

lemma example_C6_single: "setBits exampleInitial = [0]"
  by code_simp

lemma example_C6_known:
  "testBit (bucketVector exampleProb0) 0 \<noteq> testBit (bucketVector exampleProb1) 0"
  "testBit (bucketVector exampleProb1) 0"
  by code_simp+

text \<open>
  Claim C6: if the single initial state lies in the set of states with probability 1
  (respectively 0) that the graph analysis computed, \<open>computeUntilProbabilities\<close> returns
  exactly one (respectively zero) and performs no elimination step.

  The initial state is in exactly one of the two sets (no state has probability 0 and 1 at
  once). The result holds for every remainder \<open>eliminate\<close> of the procedure, also for one
  that fails: the remainder is not run, and the number of elimination steps is zero.
\<close>

theorem C6_short_circuit:
  fixes eliminate :: "BitVector \<Rightarrow> ('v::field \<times> nat) option"
  assumes inv: "bv_invariant initialStates" "bv_invariant statesWithProbability0"
      "bv_invariant statesWithProbability1"
    and size: "bitCount statesWithProbability0 = bitCount initialStates"
      "bitCount statesWithProbability1 = bitCount initialStates"
    and single: "setBits initialStates = [initialState]"
    and known: "testBit (bucketVector statesWithProbability0) initialState
                  \<noteq> testBit (bucketVector statesWithProbability1) initialState"
  shows "computeUntilProbabilities initialStates (statesWithProbability0, statesWithProbability1) eliminate
           = Some ((initialState,
                    if testBit (bucketVector statesWithProbability1) initialState then 1 else 0), 0)"
proof -
  let ?i = initialState and ?p0 = statesWithProbability0 and ?p1 = statesWithProbability1
  let ?n = "bitCount initialStates"
  from single have "?i \<in> set (setBits initialStates)" by simp
  then have i: "?i < ?n" "testBit (bucketVector initialStates) ?i" by (simp_all add: setBits_member)
  have cnt: "getNumberOfSetBits initialStates = Some 1"
    using getNumberOfSetBits_count[OF inv(1)] single by simp
  have first: "firstSetIndex initialStates = Some ?i" using inv(1) single by (rule firstSetIndex_single)
  from operator_or_spec[OF inv(2,3)] size obtain u where
    u: "operator_or ?p0 ?p1 = Some u" "bitCount u = ?n"
    "length (bucketVector u) = bucketCountFor (bitCount u)"
    "\<forall>j < ?n. testBit (bucketVector u) j
              = (testBit (bucketVector ?p0) j \<or> testBit (bucketVector ?p1) j)"
    by auto
  from operator_not_spec[OF u(3)] u(2) obtain m where
    m: "operator_not u = Some m" "bv_invariant m" "bitCount m = ?n"
    "\<forall>j < ?n. testBit (bucketVector m) j = (\<not> testBit (bucketVector u) j)" by auto
  have len: "length (bucketVector initialStates) = length (bucketVector m)"
    using inv(1) m(2,3) by (simp add: bv_invariant_def)
  have "\<not> (testBit (bucketVector initialStates) j \<and> testBit (bucketVector m) j)"
    if j: "j < 64 * length (bucketVector initialStates)" for j
  proof (cases "j < ?n")
    case True
    show ?thesis
    proof (cases "j = ?i")
      case True
      with u(4) m(4) i(1) known show ?thesis by auto
    next
      case False
      with True single have "\<not> testBit (bucketVector initialStates) j"
        using setBits_member[of j initialStates] by simp
      then show ?thesis by simp
    qed
  next
    case False
    with padding_clear[OF inv(1), of j] j show ?thesis by simp
  qed
  with isDisjointFrom_spec[of initialStates m] m(3) len
  have dis: "isDisjointFrom initialStates m = Some True" by simp
  have get: "bv_get ?p0 ?i = Some (testBit (bucketVector ?p0) ?i)"
    using inv(2) size(1) i(1) by (simp add: bv_get_in_range)
  from cnt first u(1) m(1) dis get known show ?thesis
    by (auto simp add: computeUntilProbabilities_def)
qed

theorem C6_short_circuit_witness:
  "bv_invariant exampleInitial \<and> bv_invariant exampleProb0 \<and> bv_invariant exampleProb1 \<and>
   bitCount exampleProb0 = bitCount exampleInitial \<and>
   bitCount exampleProb1 = bitCount exampleInitial \<and>
   setBits exampleInitial = [0] \<and>
   testBit (bucketVector exampleProb0) 0 \<noteq> testBit (bucketVector exampleProb1) 0 \<and>
   computeUntilProbabilities exampleInitial (exampleProb0, exampleProb1) Map.empty
     = Some ((0, 1 :: rat), 0)"
  using C6_short_circuit[OF example_C6 example_C6_single example_C6_known(1),
      of "Map.empty :: BitVector \<Rightarrow> (rat \<times> nat) option"]
    example_C6 example_C6_single example_C6_known
  by simp

section \<open>State elimination (SparseDtmcEliminationModelChecker.cpp, in src/related-tools.md)\<close>

text \<open>
  The elimination model checker works on a \<open>FlexibleSparseMatrix\<close>: a vector \<open>data\<close> of
  rows, each row a vector of matrix entries (column, value) that the conversion from the
  sparse matrix fills in increasing column order. \<open>eliminateState\<close> receives the forward
  matrix, the vector of one-step probabilities, the state, the backward matrix, the
  optional vector of state rewards and the flags \<open>removeForwardTransitions\<close> and
  \<open>constrained\<close> with the bit vector \<open>predecessorConstraint\<close>; it changes the first four
  in place. The model passes them as a record and returns the record updated.

  Modelling conventions.
  \<^item> The value type is any field. This covers the exact instantiations (rational
    functions, rational numbers), whose arithmetic is the arithmetic of a field. The
    instantiation with \<open>double\<close>, whose arithmetic rounds, is not covered.
  \<^item> \<open>None\<close> stands for every way the C++ leaves the run: an element access outside a
    vector (\<open>data[index]\<close>, \<open>oneStepProbabilities[state]\<close>), a failed assertion
    (\<open>assert\<close>, \<open>STORM_LOG_ASSERT\<close>), and the exception of \<open>STORM_LOG_THROW\<close>.
  \<^item> The counters \<open>counter\<close> and \<open>chunkCounter\<close> and the clock readings only feed the log
    and are left out.
\<close>

type_synonym 'v row_type = "(nat \<times> 'v) list"

type_synonym 'v FlexibleSparseMatrix = "'v row_type list"

record 'v eliminationState =
  matrix :: "'v FlexibleSparseMatrix"
  oneStepProbabilities :: "'v list"
  backwardTransitions :: "'v FlexibleSparseMatrix"
  stateRewards :: "'v list option"

text \<open>
  \<open>FlexibleSparseMatrix::getRow(index)\<close> returns \<open>data[index]\<close>, an unchecked access.
\<close>

definition getRow :: "'v FlexibleSparseMatrix \<Rightarrow> nat \<Rightarrow> 'v row_type option" where
  "getRow data index = (if index < length data then Some (data ! index) else None)"

text \<open>
  \<open>FlexibleSparseMatrix::hasSelfLoop(state)\<close> walks the row of the state: it skips the
  entries with a smaller column, answers false at the first entry with a larger column and
  true at an entry of the state's own column.
\<close>

fun hasSelfLoopRow :: "nat \<Rightarrow> 'v row_type \<Rightarrow> bool" where
  "hasSelfLoopRow state [] = False"
| "hasSelfLoopRow state ((column, val) # entries) =
     (if column < state then hasSelfLoopRow state entries
      else if column > state then False
      else True)"

definition hasSelfLoop :: "'v FlexibleSparseMatrix \<Rightarrow> nat \<Rightarrow> bool option" where
  "hasSelfLoop data state = map_option (hasSelfLoopRow state) (getRow data state)"

text \<open>
  Modelled from the spec: \<open>storm::utility::simplify\<close>, which is not among the sources. It
  cancels common factors in the representation of an exact weight and does nothing to a
  floating-point number; the value of the weight is the same, so on the elements of a field
  it is the identity.
\<close>

definition simplify :: "'v \<Rightarrow> 'v" where
  "simplify w = w"

text \<open>
  Modelled from the spec: \<open>ConstantsComparator::isOne\<close>, which is not among the sources.
  For an exact value type it compares with one.
\<close>

definition isOne :: "'v::field \<Rightarrow> bool" where
  "isOne w = (w = 1)"

text \<open>
  The search for the loop probability at the start of \<open>eliminateState\<close>: the loop stops at
  the first entry whose column is at least the state. If that column is the state, its
  value is the loop probability, and the entry is erased from the row unless the forward
  transitions are going to be removed. The function returns the loop probability, if any,
  and the row as the loop leaves it.
\<close>

fun findLoopProbability :: "nat \<Rightarrow> bool \<Rightarrow> 'v row_type \<Rightarrow> 'v option \<times> 'v row_type" where
  "findLoopProbability state removeForwardTransitions [] = (None, [])"
| "findLoopProbability state removeForwardTransitions ((column, val) # entries) =
     (if column \<ge> state then
        (if column = state
         then (Some val, if \<not> removeForwardTransitions then entries else (column, val) # entries)
         else (None, (column, val) # entries))
      else (case findLoopProbability state removeForwardTransitions entries of
              (loop, entries') \<Rightarrow> (loop, (column, val) # entries')))"

text \<open>
  The scaling of the row of the state: every entry outside the diagonal is multiplied with
  the (inverted) loop probability.
\<close>

definition scaleRow :: "nat \<Rightarrow> 'v::field \<Rightarrow> 'v row_type \<Rightarrow> 'v row_type" where
  "scaleRow state loopProbability entries =
     map (\<lambda>(column, val).
            if column \<noteq> state then (column, simplify (val * loopProbability)) else (column, val))
         entries"

text \<open>
  \<open>std::find_if\<close> for the entry of a given column, and \<open>setValue\<close> on the entry it finds
  (\<open>multiplyElement\<close>).
\<close>

fun findColumn :: "nat \<Rightarrow> 'v row_type \<Rightarrow> 'v option" where
  "findColumn state [] = None"
| "findColumn state ((column, val) # entries) =
     (if column = state then Some val else findColumn state entries)"

fun setColumnValue :: "nat \<Rightarrow> 'v \<Rightarrow> 'v row_type \<Rightarrow> 'v row_type" where
  "setColumnValue state new [] = []"
| "setColumnValue state new ((column, val) # entries) =
     (if column = state then (column, new) # entries
      else (column, val) # setColumnValue state new entries)"

text \<open>
  The merge of the forward row of a predecessor (\<open>first1\<close> to \<open>last1\<close>) with the row of the
  state (\<open>first2\<close> to \<open>last2\<close>). Entries of the column of the state are skipped on both
  sides. When the row of the state is exhausted, the rest of the predecessor's row is
  copied; a smaller column of the row of the state is inserted multiplied with the factor,
  a smaller column of the predecessor is copied, equal columns are added up. After the
  loop the rest of the row of the state is appended, multiplied with the factor.
\<close>

fun mergeSuccessors :: "nat \<Rightarrow> 'v::field \<Rightarrow> 'v row_type \<Rightarrow> 'v row_type \<Rightarrow> 'v row_type" where
  "mergeSuccessors state multiplyFactor [] [] = []"
| "mergeSuccessors state multiplyFactor [] ((c2, v2) # r2) =
     (if c2 \<noteq> state
      then (c2, simplify (v2 * multiplyFactor)) # mergeSuccessors state multiplyFactor [] r2
      else mergeSuccessors state multiplyFactor [] r2)"
| "mergeSuccessors state multiplyFactor ((c1, v1) # r1) [] =
     (if c1 = state then mergeSuccessors state multiplyFactor r1 []
      else filter (\<lambda>a. fst a \<noteq> state) ((c1, v1) # r1))"
| "mergeSuccessors state multiplyFactor ((c1, v1) # r1) ((c2, v2) # r2) =
     (if c1 = state \<and> c2 = state then mergeSuccessors state multiplyFactor r1 r2
      else if c1 = state then mergeSuccessors state multiplyFactor r1 ((c2, v2) # r2)
      else if c2 = state then mergeSuccessors state multiplyFactor ((c1, v1) # r1) r2
      else if c2 < c1 then
        (c2, simplify (v2 * multiplyFactor)) # mergeSuccessors state multiplyFactor ((c1, v1) # r1) r2
      else if c1 < c2 then
        (c1, v1) # mergeSuccessors state multiplyFactor r1 ((c2, v2) # r2)
      else
        (c1, simplify (v1 + simplify (multiplyFactor * v2))) # mergeSuccessors state multiplyFactor r1 r2)"

text \<open>
  \<open>values[predecessor] += f(values[state])\<close> with unchecked accesses.
\<close>

definition addAt :: "'v::field list \<Rightarrow> nat \<Rightarrow> nat \<Rightarrow> ('v \<Rightarrow> 'v) \<Rightarrow> 'v list option" where
  "addAt values predecessor state f =
     (if predecessor < length values \<and> state < length values
      then Some (values[predecessor := values ! predecessor + f (values ! state)])
      else None)"

text \<open>
  The loop over the predecessors of the state (the backward row of the state). The state
  itself is skipped, under the assertion that it has a self-loop. In a constrained
  elimination a predecessor outside the constraint is skipped and recorded in
  \<open>newCurrentStatePredecessors\<close>. For every other predecessor the entry into the state is
  looked up (an exception if there is none) and set to zero, the forward row is replaced by
  the merged row, and the one-step probability of the predecessor (or its state reward, if
  rewards are computed) is increased.
\<close>

fun eliminatePredecessors ::
  "nat \<Rightarrow> bool \<Rightarrow> 'v::field \<Rightarrow> bool \<Rightarrow> BitVector \<Rightarrow> 'v row_type \<Rightarrow>
   'v eliminationState \<times> 'v row_type \<Rightarrow> ('v eliminationState \<times> 'v row_type) option" where
  "eliminatePredecessors state hasLoop loopProbability constrained predecessorConstraint []
     (st, newCurrentStatePredecessors) = Some (st, newCurrentStatePredecessors)"
| "eliminatePredecessors state hasLoop loopProbability constrained predecessorConstraint
     ((predecessor, w) # predecessors) (st, newCurrentStatePredecessors) =
     (if predecessor = state then
        (if hasLoop
         then eliminatePredecessors state hasLoop loopProbability constrained predecessorConstraint
                predecessors (st, newCurrentStatePredecessors)
         else None)
      else
        do {
          skip \<leftarrow> (if constrained then map_option Not (bv_get predecessorConstraint predecessor)
                   else Some False);
          if skip then
            eliminatePredecessors state hasLoop loopProbability constrained predecessorConstraint
              predecessors (st, newCurrentStatePredecessors @ [(predecessor, 1)])
          else
            do {
              predecessorForwardTransitions \<leftarrow> getRow (matrix st) predecessor;
              multiplyFactor \<leftarrow> findColumn state predecessorForwardTransitions;
              currentStateSuccessors \<leftarrow> getRow ((matrix st)[predecessor :=
                  setColumnValue state 0 predecessorForwardTransitions]) state;
              let newSuccessors = mergeSuccessors state multiplyFactor
                    (setColumnValue state 0 predecessorForwardTransitions) currentStateSuccessors;
              let st1 = st\<lparr>matrix := (matrix st)[predecessor := newSuccessors]\<rparr>;
              st2 \<leftarrow> (case stateRewards st1 of
                        None \<Rightarrow>
                          map_option (\<lambda>values. st1\<lparr>oneStepProbabilities := values\<rparr>)
                            (addAt (oneStepProbabilities st1) predecessor state
                               (\<lambda>v. simplify (multiplyFactor * v)))
                      | Some rewards \<Rightarrow>
                          map_option (\<lambda>values. st1\<lparr>stateRewards := Some values\<rparr>)
                            (addAt rewards predecessor state
                               (\<lambda>v. if hasLoop then simplify (multiplyFactor * loopProbability * v)
                                    else simplify (multiplyFactor * v))));
              eliminatePredecessors state hasLoop loopProbability constrained predecessorConstraint
                predecessors (st2, newCurrentStatePredecessors)
            }
        })"

text \<open>
  The loop over the successors of the state, which updates the backward matrix.
  \<open>eraseColumn\<close> removes the state from the backward row of a successor (asserting that it
  is there), \<open>mergePredecessors\<close> is the merge loop of the backward row with the
  predecessors of the state (it returns the merged entries and what is left of the
  predecessors), and \<open>copyPredecessors\<close> is the final \<open>std::copy_if\<close> of the constrained
  branch. The predecessors of the state are read from the backward matrix in every
  iteration, since \<open>currentStatePredecessors\<close> is a reference into it.
\<close>

fun eraseColumn :: "nat \<Rightarrow> 'v row_type \<Rightarrow> 'v row_type option" where
  "eraseColumn state [] = None"
| "eraseColumn state ((column, val) # entries) =
     (if column = state then Some entries
      else map_option (\<lambda>entries'. (column, val) # entries') (eraseColumn state entries))"

fun mergePredecessors :: "nat \<Rightarrow> 'v row_type \<Rightarrow> 'v row_type \<Rightarrow> 'v row_type \<times> 'v row_type" where
  "mergePredecessors state [] r2 = ([], r2)"
| "mergePredecessors state ((c1, v1) # r1) [] = ((c1, v1) # r1, [])"
| "mergePredecessors state ((c1, v1) # r1) ((c2, v2) # r2) =
     (if c2 < c1 then
        (case mergePredecessors state ((c1, v1) # r1) r2 of
           (result, rest) \<Rightarrow> ((if c2 \<noteq> state then [(c2, v2)] else []) @ result, rest))
      else
        (case mergePredecessors state r1 (if c1 = c2 then r2 else (c2, v2) # r2) of
           (result, rest) \<Rightarrow> ((c1, v1) # result, rest)))"

fun copyPredecessors :: "nat \<Rightarrow> bool \<Rightarrow> BitVector \<Rightarrow> 'v row_type \<Rightarrow> 'v row_type option" where
  "copyPredecessors state constrained predecessorConstraint [] = Some []"
| "copyPredecessors state constrained predecessorConstraint ((column, val) # entries) =
     do {
       keep \<leftarrow> (if column \<noteq> state
                then (if \<not> constrained then Some True else bv_get predecessorConstraint column)
                else Some False);
       result \<leftarrow> copyPredecessors state constrained predecessorConstraint entries;
       Some (if keep then (column, val) # result else result)
     }"

fun updateSuccessors ::
  "nat \<Rightarrow> bool \<Rightarrow> bool \<Rightarrow> BitVector \<Rightarrow> 'v row_type \<Rightarrow> 'v FlexibleSparseMatrix \<Rightarrow>
   'v FlexibleSparseMatrix option" where
  "updateSuccessors state removeForwardTransitions constrained predecessorConstraint [] backward =
     Some backward"
| "updateSuccessors state removeForwardTransitions constrained predecessorConstraint
     ((successor, w) # successors) backward =
     do {
       successorBackwardTransitions \<leftarrow> getRow backward successor;
       erased \<leftarrow> (if removeForwardTransitions then eraseColumn state successorBackwardTransitions
                  else Some successorBackwardTransitions);
       currentStatePredecessors \<leftarrow> getRow (backward[successor := erased]) state;
       (case mergePredecessors state erased currentStatePredecessors of
          (result, rest) \<Rightarrow>
            do {
              copied \<leftarrow> (if \<not> constrained then Some (filter (\<lambda>a. fst a \<noteq> state) rest)
                         else copyPredecessors state constrained predecessorConstraint rest);
              updateSuccessors state removeForwardTransitions constrained predecessorConstraint
                successors (backward[successor := result @ copied])
            })
     }"

text \<open>
  \<open>eliminateState\<close>: find the loop probability; if there is a self-loop, assert that its
  probability is not one, invert \<open>1 - loopProbability\<close>, scale the row of the state and,
  when probabilities are computed, its one-step probability; run the loop over the
  predecessors and the loop over the successors; clear the forward row of the state if
  \<open>removeForwardTransitions\<close> is set, and clear its backward row (or, in a constrained
  elimination, replace it by the predecessors that were skipped).
\<close>

definition eliminateState ::
  "'v::field eliminationState \<Rightarrow> nat \<Rightarrow> bool \<Rightarrow> bool \<Rightarrow> BitVector \<Rightarrow> 'v eliminationState option" where
  "eliminateState st state removeForwardTransitions constrained predecessorConstraint =
     do {
       row \<leftarrow> getRow (matrix st) state;
       (case findLoopProbability state removeForwardTransitions row of
          (loop, successors) \<Rightarrow>
            do {
              (st1, loopProbability) \<leftarrow>
                (case loop of
                   None \<Rightarrow> Some (st\<lparr>matrix := (matrix st)[state := successors]\<rparr>, 0)
                 | Some l \<Rightarrow>
                     if isOne l then None
                     else
                       (let loopProbability = simplify (1 / (1 - l));
                            st1 = st\<lparr>matrix := (matrix st)[state := scaleRow state loopProbability successors]\<rparr>
                        in case stateRewards st of
                             None \<Rightarrow>
                               if state < length (oneStepProbabilities st)
                               then Some (st1\<lparr>oneStepProbabilities := (oneStepProbabilities st)
                                            [state := oneStepProbabilities st ! state * loopProbability]\<rparr>,
                                          loopProbability)
                               else None
                           | Some rewards \<Rightarrow> Some (st1, loopProbability)));
              currentStatePredecessors \<leftarrow> getRow (backwardTransitions st1) state;
              (st2, newCurrentStatePredecessors) \<leftarrow>
                eliminatePredecessors state (loop \<noteq> None) loopProbability constrained
                  predecessorConstraint currentStatePredecessors (st1, []);
              currentStateSuccessors \<leftarrow> getRow (matrix st2) state;
              backward \<leftarrow> updateSuccessors state removeForwardTransitions constrained
                  predecessorConstraint currentStateSuccessors (backwardTransitions st2);
              Some (st2\<lparr>matrix := (if removeForwardTransitions then (matrix st2)[state := []]
                                    else matrix st2),
                         backwardTransitions :=
                           backward[state := (if \<not> constrained then [] else newCurrentStatePredecessors)]\<rparr>)
            })
     }"

subsection \<open>The equations of the chain\<close>

text \<open>
  The value of a row under an assignment \<open>x\<close> of values to the states, and the equation
  system of the chain: the probability of reaching the targets from a state is its
  one-step probability plus the weighted probabilities of its successors.
\<close>

definition rowValue :: "'v::field row_type \<Rightarrow> (nat \<Rightarrow> 'v) \<Rightarrow> 'v" where
  "rowValue r x = sum_list (map (\<lambda>(t, w). w * x t) r)"

definition reachEquation ::
  "'v::field FlexibleSparseMatrix \<Rightarrow> 'v list \<Rightarrow> (nat \<Rightarrow> 'v) \<Rightarrow> nat \<Rightarrow> bool" where
  "reachEquation fwd oneStep x q = (x q = rowValue (fwd ! q) x + oneStep ! q)"

text \<open>
  The data the elimination starts from, at the state \<open>s\<close> that is about to be eliminated:
  the two matrices and the one-step probabilities have one entry per state, probabilities
  are computed (no state rewards), the entries of every forward row and of the backward row
  of \<open>s\<close> are strictly increasing by column and stay inside the matrix, the backward matrix
  holds the transposed edges of the forward matrix, and a constrained elimination can read
  the constraint at every predecessor of \<open>s\<close>.
\<close>

definition eliminationReady :: "'v eliminationState \<Rightarrow> nat \<Rightarrow> bool \<Rightarrow> BitVector \<Rightarrow> bool" where
  "eliminationReady st s constrained predecessorConstraint =
     (let fwd = matrix st; bwd = backwardTransitions st; n = length fwd in
      s < n \<and> length bwd = n \<and> length (oneStepProbabilities st) = n \<and> stateRewards st = None \<and>
      list_all (\<lambda>r. sorted_wrt (<) (map fst r) \<and> list_all (\<lambda>e. fst e < n) r) fwd \<and>
      sorted_wrt (<) (map fst (bwd ! s)) \<and> list_all (\<lambda>e. fst e < n) (bwd ! s) \<and>
      list_all (\<lambda>p. list_all (\<lambda>t.
          list_ex (\<lambda>e. fst e = p) (bwd ! t) = list_ex (\<lambda>e. fst e = t) (fwd ! p)) [0..<n]) [0..<n] \<and>
      (constrained \<longrightarrow> list_all (\<lambda>e. bv_get predecessorConstraint (fst e) \<noteq> None) (bwd ! s)))"

text \<open>
  The predecessors that the loop over the predecessors reroutes, and the row and the one-step
  probability of the state after the scaling.
\<close>

definition eliminated :: "nat \<Rightarrow> bool \<Rightarrow> BitVector \<Rightarrow> 'v row_type \<Rightarrow> nat \<Rightarrow> bool" where
  "eliminated s constrained pc preds p =
     (p \<in> fst ` set preds \<and> p \<noteq> s \<and> (constrained \<longrightarrow> bv_get pc p = Some True))"

definition scaledRow :: "nat \<Rightarrow> bool \<Rightarrow> 'v::field row_type \<Rightarrow> 'v row_type" where
  "scaledRow s rm r =
     (let successors = (if rm then r else filter (\<lambda>e. fst e \<noteq> s) r) in
      case findColumn s r of None \<Rightarrow> successors
      | Some l \<Rightarrow> scaleRow s (1 / (1 - l)) successors)"

definition scaledValue :: "nat \<Rightarrow> 'v::field row_type \<Rightarrow> 'v \<Rightarrow> 'v" where
  "scaledValue s r b = (case findColumn s r of None \<Rightarrow> b | Some l \<Rightarrow> b * (1 / (1 - l)))"

subsection \<open>Rows, merges and the two loops\<close>

lemma rowValue_Nil [simp]: "rowValue [] x = 0"
  by (simp add: rowValue_def)

lemma rowValue_Cons [simp]: "rowValue ((t, w) # r) x = w * x t + rowValue r x"
  by (simp add: rowValue_def)

lemma rowValue_append [simp]: "rowValue (r @ r') x = rowValue r x + rowValue r' x"
  by (simp add: rowValue_def)

lemma hasSelfLoopRow_sorted:
  "sorted_wrt (<) (map fst r) \<Longrightarrow> hasSelfLoopRow s r \<longleftrightarrow> s \<in> fst ` set r"
proof (induction r)
  case Nil
  then show ?case by simp
next
  case (Cons e r)
  obtain c v where e: "e = (c, v)" by (cases e)
  from Cons.prems e have gt: "\<forall>t \<in> fst ` set r. c < t" by auto
  show ?case
  proof (cases "c < s")
    case True
    with Cons e show ?thesis by auto
  next
    case False
    with gt have "s \<notin> fst ` set r" by auto
    with False e show ?thesis by auto
  qed
qed

lemma findLoopProbability_none:
  "s \<notin> fst ` set r \<Longrightarrow> sorted_wrt (<) (map fst r) \<Longrightarrow> findLoopProbability s rm r = (None, r)"
  by (induction r) auto

lemma filter_no_target:
  "s \<notin> fst ` set r \<Longrightarrow> filter (\<lambda>e. fst e \<noteq> s) r = r"
  by (induction r) auto

lemma findLoopProbability_some:
  "s \<in> fst ` set r \<Longrightarrow> sorted_wrt (<) (map fst r) \<Longrightarrow>
   findLoopProbability s rm r
     = (findColumn s r, if rm then r else filter (\<lambda>e. fst e \<noteq> s) r)"
proof (induction r)
  case Nil
  then show ?case by simp
next
  case (Cons e r)
  obtain c v where e: "e = (c, v)" by (cases e)
  show ?case
  proof (cases "c = s")
    case True
    with Cons.prems e have "s \<notin> fst ` set r" by auto
    then show ?thesis using True e by (simp add: filter_no_target)
  next
    case False
    with Cons.prems e have "s \<in> fst ` set r" "c < s" by auto
    with Cons e False show ?thesis by simp
  qed
qed

lemma findColumn_map_of: "findColumn s r = map_of r s"
  by (induction r) auto

lemma findColumn_None_iff: "findColumn s r = None \<longleftrightarrow> s \<notin> fst ` set r"
  by (simp add: findColumn_map_of map_of_eq_None_iff)

lemma filter_setColumnValue:
  "filter (\<lambda>e. fst e \<noteq> s) (setColumnValue s v r) = filter (\<lambda>e. fst e \<noteq> s) r"
  by (induction r) auto

lemma rowValue_mergeSuccessors:
  "rowValue (mergeSuccessors s m rp rs) x
     = rowValue (filter (\<lambda>e. fst e \<noteq> s) rp) x + m * rowValue (filter (\<lambda>e. fst e \<noteq> s) rs) x"
  by (induction s m rp rs rule: mergeSuccessors.induct) (auto simp add: simplify_def algebra_simps)

lemma mergeSuccessors_drops_target:
  "e \<in> set (mergeSuccessors s m rp rs) \<Longrightarrow> fst e \<noteq> s"
  by (induction s m rp rs rule: mergeSuccessors.induct) (auto split: if_splits)

lemma rowValue_split:
  "distinct (map fst r) \<Longrightarrow>
   rowValue r x = rowValue (filter (\<lambda>e. fst e \<noteq> s) r) x
                  + (case findColumn s r of None \<Rightarrow> 0 | Some m \<Rightarrow> m * x s)"
proof (induction r)
  case Nil
  then show ?case by simp
next
  case (Cons e r)
  obtain t w where e: "e = (t, w)" by (cases e)
  show ?case
  proof (cases "t = s")
    case True
    with Cons.prems e have "s \<notin> fst ` set r" by auto
    then show ?thesis using True e by (simp add: filter_no_target)
  next
    case False
    with Cons e show ?thesis by simp
  qed
qed

lemma rowValue_scaleRow:
  "s \<notin> fst ` set r \<Longrightarrow> rowValue (scaleRow s f r) x = f * rowValue r x"
  by (induction r) (auto simp add: scaleRow_def simplify_def algebra_simps)

lemma eliminatePredecessors_spec:
  fixes st :: "'v::field eliminationState"
  shows "distinct (map fst preds) \<Longrightarrow> length (matrix st) = n \<Longrightarrow>
   length (oneStepProbabilities st) = n \<Longrightarrow> stateRewards st = None \<Longrightarrow> s < n \<Longrightarrow>
   \<forall>p \<in> fst ` set preds. p < n \<and> (p \<noteq> s \<longrightarrow> findColumn s (matrix st ! p) \<noteq> None) \<Longrightarrow>
   s \<in> fst ` set preds \<longrightarrow> hasLoop \<Longrightarrow>
   constrained \<longrightarrow> (\<forall>p \<in> fst ` set preds. bv_get pc p \<noteq> None) \<Longrightarrow>
   \<exists>st' new. eliminatePredecessors s hasLoop lp constrained pc preds (st, acc) = Some (st', new) \<and>
      length (matrix st') = n \<and> length (oneStepProbabilities st') = n \<and>
      stateRewards st' = None \<and> backwardTransitions st' = backwardTransitions st \<and>
      (\<forall>q < n. matrix st' ! q =
         (if eliminated s constrained pc preds q
          then mergeSuccessors s (the (findColumn s (matrix st ! q)))
                 (setColumnValue s 0 (matrix st ! q)) (matrix st ! s)
          else matrix st ! q)) \<and>
      (\<forall>q < n. oneStepProbabilities st' ! q =
         (if eliminated s constrained pc preds q
          then oneStepProbabilities st ! q
                 + the (findColumn s (matrix st ! q)) * (oneStepProbabilities st ! s)
          else oneStepProbabilities st ! q))"
proof (induction preds arbitrary: st acc)
  case Nil
  then show ?case by (simp add: eliminated_def)
next
  case (Cons e preds)
  obtain p w where e: "e = (p, w)" by (cases e)
  have notin: "p \<notin> fst ` set preds" and dist: "distinct (map fst preds)"
    using Cons.prems(1) e by auto
  have rest: "\<forall>q \<in> fst ` set preds. q < n" using Cons.prems(6) by simp
  have el: "eliminated s constrained pc (e # preds) q
      = (eliminated s constrained pc preds q \<or> (q = p \<and> p \<noteq> s \<and> (constrained \<longrightarrow> bv_get pc p = Some True)))"
    for q using e by (auto simp add: eliminated_def)
  have notel: "\<not> eliminated s constrained pc preds p" using notin by (simp add: eliminated_def)
  have skipCase: ?case
    if sk: "eliminatePredecessors s hasLoop lp constrained pc (e # preds) (st, acc)
            = eliminatePredecessors s hasLoop lp constrained pc preds (st, acc')"
      and ne: "p = s \<or> (constrained \<and> bv_get pc p \<noteq> Some True)" for acc'
  proof -
    have pre6: "\<forall>p \<in> fst ` set preds. p < n \<and> (p \<noteq> s \<longrightarrow> findColumn s (matrix st ! p) \<noteq> None)"
      using Cons.prems(6) by simp
    have pre7: "s \<in> fst ` set preds \<longrightarrow> hasLoop" using Cons.prems(7) by simp
    have pre8: "constrained \<longrightarrow> (\<forall>p \<in> fst ` set preds. bv_get pc p \<noteq> None)"
      using Cons.prems(8) by simp
    from Cons.IH[OF dist Cons.prems(2,3,4,5) pre6 pre7 pre8, of acc'] sk ne el
    show ?thesis by auto
  qed
  show ?case
  proof (cases "p = s")
    case True
    with Cons.prems(7) e have "hasLoop" by simp
    with True e show ?thesis by (intro skipCase[of acc]) simp_all
  next
    case False
    show ?thesis
    proof (cases "constrained \<and> bv_get pc p \<noteq> Some True")
      case True
      with Cons.prems(8) e have "bv_get pc p = Some False" by auto
      with True False e show ?thesis by (intro skipCase[of "acc @ [(p, 1)]"]) simp_all
    next
      case noskip: False
      from Cons.prems(6) e False obtain m where m: "findColumn s (matrix st ! p) = Some m"
        and p: "p < n" by auto
      let ?row = "setColumnValue s 0 (matrix st ! p)"
      let ?new = "mergeSuccessors s m ?row (matrix st ! s)"
      let ?b = "oneStepProbabilities st"
      let ?st2 = "st\<lparr>matrix := (matrix st)[p := ?new],
                     oneStepProbabilities := ?b[p := ?b ! p + simplify (m * (?b ! s))]\<rparr>"
      have skipv: "(if constrained then map_option Not (bv_get pc p) else Some False) = Some False"
        using noskip by auto
      have step: "eliminatePredecessors s hasLoop lp constrained pc (e # preds) (st, acc)
            = eliminatePredecessors s hasLoop lp constrained pc preds (?st2, acc)"
        using e False skipv m p Cons.prems(2,3,4,5)
        by (simp add: getRow_def addAt_def nth_list_update)
      have pre2: "length (matrix ?st2) = n" "length (oneStepProbabilities ?st2) = n"
        "stateRewards ?st2 = None"
        using Cons.prems(2,3,4) by simp_all
      have pre6: "\<forall>q \<in> fst ` set preds. q < n \<and> (q \<noteq> s \<longrightarrow> findColumn s (matrix ?st2 ! q) \<noteq> None)"
      proof
        fix q assume q: "q \<in> fst ` set preds"
        with notin have "q \<noteq> p" by auto
        moreover from Cons.prems(6) q have "q < n \<and> (q \<noteq> s \<longrightarrow> findColumn s (matrix st ! q) \<noteq> None)"
          by auto
        ultimately show "q < n \<and> (q \<noteq> s \<longrightarrow> findColumn s (matrix ?st2 ! q) \<noteq> None)"
          by simp
      qed
      have pre7: "s \<in> fst ` set preds \<longrightarrow> hasLoop" using Cons.prems(7) by simp
      have pre8: "constrained \<longrightarrow> (\<forall>p \<in> fst ` set preds. bv_get pc p \<noteq> None)"
        using Cons.prems(8) by simp
      from Cons.IH[OF dist pre2 Cons.prems(5) pre6 pre7 pre8, of acc] obtain st' new where
        r: "eliminatePredecessors s hasLoop lp constrained pc preds (?st2, acc) = Some (st', new)"
        "length (matrix st') = n" "length (oneStepProbabilities st') = n"
        "stateRewards st' = None" "backwardTransitions st' = backwardTransitions ?st2"
        "\<forall>q < n. matrix st' ! q =
           (if eliminated s constrained pc preds q
            then mergeSuccessors s (the (findColumn s (matrix ?st2 ! q)))
                   (setColumnValue s 0 (matrix ?st2 ! q)) (matrix ?st2 ! s)
            else matrix ?st2 ! q)"
        "\<forall>q < n. oneStepProbabilities st' ! q =
           (if eliminated s constrained pc preds q
            then oneStepProbabilities ?st2 ! q
                   + the (findColumn s (matrix ?st2 ! q)) * (oneStepProbabilities ?st2 ! s)
            else oneStepProbabilities ?st2 ! q)"
        by blast
      have elp: "eliminated s constrained pc (e # preds) q
                   = (eliminated s constrained pc preds q \<or> q = p)" for q
        using el[of q] False noskip by auto
      have f: "matrix st' ! q =
           (if eliminated s constrained pc (e # preds) q
            then mergeSuccessors s (the (findColumn s (matrix st ! q)))
                   (setColumnValue s 0 (matrix st ! q)) (matrix st ! s)
            else matrix st ! q)" if "q < n" for q
        using r(6) that notel m False Cons.prems(2) elp[of q] by (cases "q = p") auto
      have g: "oneStepProbabilities st' ! q =
           (if eliminated s constrained pc (e # preds) q
            then oneStepProbabilities st ! q
                   + the (findColumn s (matrix st ! q)) * (oneStepProbabilities st ! s)
            else oneStepProbabilities st ! q)" if "q < n" for q
        using r(7) that notel m False Cons.prems(2,3) elp[of q]
        by (cases "q = p") (auto simp add: simplify_def)
      from step r(1,2,3,4,5) f g show ?thesis by auto
    qed
  qed
qed


lemma eraseColumn_Some:
  "s \<in> fst ` set r \<Longrightarrow> \<exists>r'. eraseColumn s r = Some r' \<and> set r' \<subseteq> set r"
proof (induction r)
  case Nil
  then show ?case by simp
next
  case (Cons e r)
  obtain c v where e: "e = (c, v)" by (cases e)
  show ?case
  proof (cases "c = s")
    case True
    with e show ?thesis by auto
  next
    case False
    with Cons.prems e have "s \<in> fst ` set r" by auto
    from Cons.IH[OF this] obtain r' where "eraseColumn s r = Some r'" "set r' \<subseteq> set r" by blast
    with False e show ?thesis by auto
  qed
qed

lemma mergePredecessors_subset:
  "mergePredecessors s r1 r2 = (res, rest) \<Longrightarrow> set res \<subseteq> set r1 \<union> set r2 \<and> set rest \<subseteq> set r2"
proof (induction s r1 r2 arbitrary: res rest rule: mergePredecessors.induct)
  case (1 state r2)
  then show ?case by auto
next
  case (2 state c1 v1 r1)
  then show ?case by auto
next
  case (3 state c1 v1 r1 c2 v2 r2)
  show ?case
  proof (cases "c2 < c1")
    case True
    obtain res' rest' where m: "mergePredecessors state ((c1, v1) # r1) r2 = (res', rest')"
      by (cases "mergePredecessors state ((c1, v1) # r1) r2")
    from "3.IH"(1)[OF True m] "3.prems" True m show ?thesis by (auto split: if_splits)
  next
    case False
    obtain res' rest' where
      m: "mergePredecessors state r1 (if c1 = c2 then r2 else (c2, v2) # r2) = (res', rest')"
      by (cases "mergePredecessors state r1 (if c1 = c2 then r2 else (c2, v2) # r2)")
    from "3.IH"(2)[OF False m] "3.prems" False m show ?thesis by (auto split: if_splits)
  qed
qed

lemma copyPredecessors_defined:
  "constrained \<longrightarrow> (\<forall>e \<in> set r. bv_get pc (fst e) \<noteq> None) \<Longrightarrow>
   \<exists>c. copyPredecessors s constrained pc r = Some c \<and> set c \<subseteq> set r"
proof (induction r)
  case Nil
  then show ?case by simp
next
  case (Cons e r)
  obtain column v where e: "e = (column, v)" by (cases e)
  from Cons obtain c where c: "copyPredecessors s constrained pc r = Some c" "set c \<subseteq> set r"
    by auto
  have "\<exists>keep. (if column \<noteq> s
                then (if \<not> constrained then Some True else bv_get pc column)
                else Some False) = Some keep"
    using Cons.prems e by (cases "bv_get pc column") auto
  then obtain keep where k: "(if column \<noteq> s
                then (if \<not> constrained then Some True else bv_get pc column)
                else Some False) = Some keep" by blast
  have "copyPredecessors s constrained pc (e # r) = Some (if keep then (column, v) # c else c)"
    unfolding e copyPredecessors.simps k c(1) by simp
  with c(2) e show ?case by auto
qed

lemma updateSuccessors_defined:
  "distinct (map fst ts) \<Longrightarrow> s < length bwd \<Longrightarrow>
   \<forall>t \<in> fst ` set ts. t < length bwd \<and> (rm \<longrightarrow> s \<in> fst ` set (bwd ! t)) \<Longrightarrow>
   constrained \<longrightarrow> (\<forall>e \<in> set (bwd ! s). bv_get pc (fst e) \<noteq> None) \<Longrightarrow>
   \<exists>bwd'. updateSuccessors s rm constrained pc ts bwd = Some bwd' \<and> length bwd' = length bwd"
proof (induction ts arbitrary: bwd)
  case Nil
  then show ?case by simp
next
  case (Cons e ts)
  obtain t w where e: "e = (t, w)" by (cases e)
  from Cons.prems(3) e have t: "t < length bwd" "rm \<longrightarrow> s \<in> fst ` set (bwd ! t)" by auto
  have "\<exists>erased. (if rm then eraseColumn s (bwd ! t) else Some (bwd ! t)) = Some erased \<and>
    set erased \<subseteq> set (bwd ! t)"
    using t(2) eraseColumn_Some[of s "bwd ! t"] by (cases rm) auto
  then obtain erased where er: "(if rm then eraseColumn s (bwd ! t) else Some (bwd ! t)) = Some erased"
    "set erased \<subseteq> set (bwd ! t)" by blast
  let ?bwd1 = "bwd[t := erased]"
  let ?preds = "?bwd1 ! s"
  have predsub: "set ?preds \<subseteq> set (bwd ! s)"
    using er(2) t(1) Cons.prems(2) by (cases "t = s") auto
  obtain res rest where m: "mergePredecessors s erased ?preds = (res, rest)"
    by (cases "mergePredecessors s erased ?preds")
  from mergePredecessors_subset[OF m] have sub: "set res \<subseteq> set erased \<union> set ?preds"
    "set rest \<subseteq> set ?preds" by simp_all
  have "constrained \<longrightarrow> (\<forall>e \<in> set rest. bv_get pc (fst e) \<noteq> None)"
    using sub(2) predsub Cons.prems(4) by blast
  from copyPredecessors_defined[OF this, of s] obtain c where
    c: "copyPredecessors s constrained pc rest = Some c" "set c \<subseteq> set rest" by blast
  have "\<exists>copied. (if \<not> constrained then Some (filter (\<lambda>a. fst a \<noteq> s) rest)
                         else copyPredecessors s constrained pc rest) = Some copied \<and>
    set copied \<subseteq> set rest"
    using c by (cases constrained) auto
  then obtain copied where cp: "(if \<not> constrained then Some (filter (\<lambda>a. fst a \<noteq> s) rest)
                         else copyPredecessors s constrained pc rest) = Some copied"
    "set copied \<subseteq> set rest" by blast
  let ?bwd2 = "?bwd1[t := res @ copied]"
  have step: "updateSuccessors s rm constrained pc (e # ts) bwd
                = updateSuccessors s rm constrained pc ts ?bwd2"
    unfolding e updateSuccessors.simps
    using t(1) Cons.prems(2) er(1) m cp(1) by (simp add: getRow_def)
  have new: "set (res @ copied) \<subseteq> (if t = s then set (bwd ! s) else set (bwd ! t) \<union> set (bwd ! s))"
    using sub cp(2) predsub er(2) t(1) by (cases "t = s") auto
  have d: "distinct (map fst ts)" and tn: "t \<notin> fst ` set ts" using Cons.prems(1) e by auto
  have l: "s < length ?bwd2" using Cons.prems(2) by simp
  have p3: "\<forall>u \<in> fst ` set ts. u < length ?bwd2 \<and> (rm \<longrightarrow> s \<in> fst ` set (?bwd2 ! u))"
  proof
    fix u assume u: "u \<in> fst ` set ts"
    with tn have "u \<noteq> t" by auto
    moreover from Cons.prems(3) u have "u < length bwd \<and> (rm \<longrightarrow> s \<in> fst ` set (bwd ! u))" by auto
    ultimately show "u < length ?bwd2 \<and> (rm \<longrightarrow> s \<in> fst ` set (?bwd2 ! u))" by simp
  qed
  have p4: "constrained \<longrightarrow> (\<forall>e \<in> set (?bwd2 ! s). bv_get pc (fst e) \<noteq> None)"
  proof (cases "t = s")
    case True
    then have "?bwd2 ! s = res @ copied" using t(1) by simp
    with new True Cons.prems(4) show ?thesis by auto
  next
    case False
    then have "?bwd2 ! s = bwd ! s" by simp
    with Cons.prems(4) show ?thesis by simp
  qed
  from Cons.IH[OF d l p3 p4] step show ?case by simp
qed


lemma list_ex_fst: "list_ex (\<lambda>e. fst e = a) r \<longleftrightarrow> a \<in> fst ` set r"
  by (auto simp add: list_ex_iff image_iff)

lemma eliminationReady_D:
  assumes "eliminationReady st s constrained pc"
  defines "fwd \<equiv> matrix st" and "bwd \<equiv> backwardTransitions st"
  defines "n \<equiv> length (matrix st)"
  shows "s < n" "length bwd = n" "length (oneStepProbabilities st) = n" "stateRewards st = None"
    "\<And>q. q < n \<Longrightarrow> sorted_wrt (<) (map fst (fwd ! q))"
    "\<And>q e. q < n \<Longrightarrow> e \<in> set (fwd ! q) \<Longrightarrow> fst e < n"
    "distinct (map fst (bwd ! s))"
    "\<And>p t. p < n \<Longrightarrow> t < n \<Longrightarrow> p \<in> fst ` set (bwd ! t) \<longleftrightarrow> t \<in> fst ` set (fwd ! p)"
    "\<And>p. p \<in> fst ` set (bwd ! s) \<Longrightarrow> p < n"
    "constrained \<longrightarrow> (\<forall>e \<in> set (bwd ! s). bv_get pc (fst e) \<noteq> None)"
proof -
  from assms(1) have a: "s < n" "length bwd = n" "length (oneStepProbabilities st) = n"
    "stateRewards st = None"
    "list_all (\<lambda>r. sorted_wrt (<) (map fst r) \<and> list_all (\<lambda>e. fst e < n) r) fwd"
    "sorted_wrt (<) (map fst (bwd ! s))" "list_all (\<lambda>e. fst e < n) (bwd ! s)"
    "list_all (\<lambda>p. list_all (\<lambda>t.
          list_ex (\<lambda>e. fst e = p) (bwd ! t) = list_ex (\<lambda>e. fst e = t) (fwd ! p)) [0..<n]) [0..<n]"
    "constrained \<longrightarrow> list_all (\<lambda>e. bv_get pc (fst e) \<noteq> None) (bwd ! s)"
    by (simp_all add: eliminationReady_def Let_def fwd_def bwd_def n_def)
  show "s < n" "length bwd = n" "length (oneStepProbabilities st) = n" "stateRewards st = None"
    by (rule a)+
  show "distinct (map fst (bwd ! s))" using a(6) by (simp add: strict_sorted_iff)
  show "sorted_wrt (<) (map fst (fwd ! q))" if "q < n" for q
  proof -
    from that have "fwd ! q \<in> set fwd" by (simp add: n_def fwd_def)
    with a(5) show ?thesis by (auto simp add: list_all_iff)
  qed
  show "fst e < n" if "q < n" "e \<in> set (fwd ! q)" for q e
  proof -
    from that have "fwd ! q \<in> set fwd" by (simp add: n_def fwd_def)
    with a(5) that(2) show ?thesis by (auto simp add: list_all_iff)
  qed
  show "p \<in> fst ` set (bwd ! t) \<longleftrightarrow> t \<in> fst ` set (fwd ! p)" if "p < n" "t < n" for p t
    using a(8) that by (simp add: list_all_iff list_ex_fst)
  show "p < n" if "p \<in> fst ` set (bwd ! s)" for p
    using a(7) that by (auto simp add: list_all_iff)
  show "constrained \<longrightarrow> (\<forall>e \<in> set (bwd ! s). bv_get pc (fst e) \<noteq> None)"
    using a(9) by (simp add: list_all_iff)
qed

lemma map_fst_scaleRow [simp]: "map fst (scaleRow s f r) = map fst r"
  by (induction r) (auto simp add: scaleRow_def)

lemma findLoopProbability_cases:
  assumes "sorted_wrt (<) (map fst r)"
  shows "findLoopProbability s rm r
           = (findColumn s r, if rm then r else filter (\<lambda>e. fst e \<noteq> s) r)"
proof (cases "s \<in> fst ` set r")
  case True
  then show ?thesis using assms by (rule findLoopProbability_some)
next
  case False
  then have "findColumn s r = None" by (simp add: findColumn_None_iff)
  with False assms show ?thesis by (simp add: findLoopProbability_none filter_no_target)
qed

lemma eliminateState_result:
  fixes st :: "'v::field eliminationState" and rm :: bool
  assumes ready: "eliminationReady st s constrained pc"
    and notOne: "findColumn s (matrix st ! s) \<noteq> Some 1"
  defines "n \<equiv> length (matrix st)"
  defines "rowS \<equiv> scaledRow s rm (matrix st ! s)"
  defines "bS \<equiv> scaledValue s (matrix st ! s) (oneStepProbabilities st ! s)"
  shows "\<exists>st'. eliminateState st s rm constrained pc = Some st' \<and>
           length (matrix st') = n \<and> length (oneStepProbabilities st') = n \<and>
           stateRewards st' = None \<and>
           matrix st' ! s = (if rm then [] else rowS) \<and> oneStepProbabilities st' ! s = bS \<and>
           (\<forall>q < n. q \<noteq> s \<longrightarrow> matrix st' ! q =
              (if eliminated s constrained pc (backwardTransitions st ! s) q
               then mergeSuccessors s (the (findColumn s (matrix st ! q)))
                      (setColumnValue s 0 (matrix st ! q)) rowS
               else matrix st ! q)) \<and>
           (\<forall>q < n. q \<noteq> s \<longrightarrow> oneStepProbabilities st' ! q =
              (if eliminated s constrained pc (backwardTransitions st ! s) q
               then oneStepProbabilities st ! q + the (findColumn s (matrix st ! q)) * bS
               else oneStepProbabilities st ! q))"
proof -
  let ?fwd = "matrix st" and ?bwd = "backwardTransitions st" and ?b = "oneStepProbabilities st"
  note R = eliminationReady_D[OF ready, folded n_def]
  let ?loop = "findColumn s (?fwd ! s)"
  let ?succ = "if rm then ?fwd ! s else filter (\<lambda>e. fst e \<noteq> s) (?fwd ! s)"
  have fl: "findLoopProbability s rm (?fwd ! s) = (?loop, ?succ)"
    using R(5)[OF R(1)] by (rule findLoopProbability_cases)
  let ?st1 = "st\<lparr>matrix := ?fwd[s := rowS], oneStepProbabilities := ?b[s := bS]\<rparr>"
  let ?lp = "case ?loop of None \<Rightarrow> 0 | Some l \<Rightarrow> 1 / (1 - l)"
  have first: "(case ?loop of
                   None \<Rightarrow> Some (st\<lparr>matrix := ?fwd[s := ?succ]\<rparr>, 0)
                 | Some l \<Rightarrow>
                     if isOne l then None
                     else
                       (let loopProbability = simplify (1 / (1 - l));
                            st1 = st\<lparr>matrix := ?fwd[s := scaleRow s loopProbability ?succ]\<rparr>
                        in case stateRewards st of
                             None \<Rightarrow>
                               if s < length ?b
                               then Some (st1\<lparr>oneStepProbabilities := ?b
                                            [s := ?b ! s * loopProbability]\<rparr>,
                                          loopProbability)
                               else None
                           | Some rewards \<Rightarrow> Some (st1, loopProbability)))
               = Some (?st1, ?lp)"
  proof (cases ?loop)
    case None
    then show ?thesis
      by (simp add: rowS_def bS_def scaledRow_def scaledValue_def Let_def)
  next
    case (Some l)
    with notOne have "l \<noteq> 1" by simp
    with Some R(1,3,4) show ?thesis
      by (simp add: rowS_def bS_def scaledRow_def scaledValue_def Let_def isOne_def simplify_def)
  qed
  have cols: "map fst rowS = map fst ?succ"
    by (cases ?loop) (simp_all add: rowS_def scaledRow_def Let_def)
  have len1: "length (matrix ?st1) = n" "length (oneStepProbabilities ?st1) = n"
    "stateRewards ?st1 = None"
    using R(3,4) by (simp_all add: n_def)
  have pre6: "\<forall>p \<in> fst ` set (?bwd ! s). p < n \<and> (p \<noteq> s \<longrightarrow> findColumn s (matrix ?st1 ! p) \<noteq> None)"
  proof
    fix p assume p: "p \<in> fst ` set (?bwd ! s)"
    then have pn: "p < n" by (rule R(9))
    from R(8)[OF pn R(1)] p have "s \<in> fst ` set (?fwd ! p)" by simp
    then have "findColumn s (?fwd ! p) \<noteq> None" by (simp add: findColumn_None_iff)
    with pn show "p < n \<and> (p \<noteq> s \<longrightarrow> findColumn s (matrix ?st1 ! p) \<noteq> None)" by simp
  qed
  have pre7: "s \<in> fst ` set (?bwd ! s) \<longrightarrow> ?loop \<noteq> None"
    using R(8)[OF R(1) R(1)] by (simp add: findColumn_None_iff)
  have pre8: "constrained \<longrightarrow> (\<forall>p \<in> fst ` set (?bwd ! s). bv_get pc p \<noteq> None)"
    using R(10) by auto
  from eliminatePredecessors_spec[OF R(7) len1 R(1) pre6 pre7 pre8, of ?lp "[]"]
  obtain st2 new where
    E: "eliminatePredecessors s (?loop \<noteq> None) ?lp constrained pc (?bwd ! s) (?st1, []) = Some (st2, new)"
    "length (matrix st2) = n" "length (oneStepProbabilities st2) = n"
    "stateRewards st2 = None" "backwardTransitions st2 = backwardTransitions ?st1"
    "\<forall>q < n. matrix st2 ! q =
         (if eliminated s constrained pc (?bwd ! s) q
          then mergeSuccessors s (the (findColumn s (matrix ?st1 ! q)))
                 (setColumnValue s 0 (matrix ?st1 ! q)) (matrix ?st1 ! s)
          else matrix ?st1 ! q)"
    "\<forall>q < n. oneStepProbabilities st2 ! q =
         (if eliminated s constrained pc (?bwd ! s) q
          then oneStepProbabilities ?st1 ! q
                 + the (findColumn s (matrix ?st1 ! q)) * (oneStepProbabilities ?st1 ! s)
          else oneStepProbabilities ?st1 ! q)"
    by blast
  have nots: "\<not> eliminated s constrained pc (?bwd ! s) s" by (simp add: eliminated_def)
  have rowS2: "matrix st2 ! s = rowS" using E(6) R(1) nots by (simp add: n_def)
  have bS2: "oneStepProbabilities st2 ! s = bS" using E(7) R(1,3) nots by simp
  have bwd2: "backwardTransitions st2 = ?bwd" using E(5) by simp
  have sub: "set (map fst rowS) \<subseteq> fst ` set (?fwd ! s)" unfolding cols by auto
  have d: "distinct (map fst rowS)"
    unfolding cols using R(5)[OF R(1)] by (auto simp add: strict_sorted_iff distinct_map_filter)
  have sl: "s < length ?bwd" using R(1,2) by simp
  have p3: "\<forall>t \<in> fst ` set rowS. t < length ?bwd \<and> (rm \<longrightarrow> s \<in> fst ` set (?bwd ! t))"
  proof
    fix t assume "t \<in> fst ` set rowS"
    with sub have t: "t \<in> fst ` set (?fwd ! s)" by auto
    then have tn: "t < n" using R(6)[OF R(1)] by auto
    with R(8)[OF R(1) tn] t R(2) show "t < length ?bwd \<and> (rm \<longrightarrow> s \<in> fst ` set (?bwd ! t))"
      by simp
  qed
  from updateSuccessors_defined[OF d sl p3 R(10)] obtain bwd' where
    U: "updateSuccessors s rm constrained pc rowS ?bwd = Some bwd'" "length bwd' = length ?bwd"
    by blast
  let ?st' = "st2\<lparr>matrix := (if rm then (matrix st2)[s := []] else matrix st2),
                   backwardTransitions := bwd'[s := (if \<not> constrained then [] else new)]\<rparr>"
  have eq: "eliminateState st s rm constrained pc = Some ?st'"
    unfolding eliminateState_def
    using R(1) fl first E(1,2) rowS2 bwd2 sl U(1)
    by (simp add: getRow_def n_def)
  have f: "matrix ?st' ! q =
              (if eliminated s constrained pc (?bwd ! s) q
               then mergeSuccessors s (the (findColumn s (?fwd ! q)))
                      (setColumnValue s 0 (?fwd ! q)) rowS
               else ?fwd ! q)" if "q < n" "q \<noteq> s" for q
    using E(6) that R(1) by (simp add: n_def)
  have g: "oneStepProbabilities ?st' ! q =
              (if eliminated s constrained pc (?bwd ! s) q
               then ?b ! q + the (findColumn s (?fwd ! q)) * bS
               else ?b ! q)" if "q < n" "q \<noteq> s" for q
    using E(7) that R(1,3) by (simp add: n_def)
  have h: "matrix ?st' ! s = (if rm then [] else rowS)"
    using rowS2 E(2) R(1) by simp
  have k: "oneStepProbabilities ?st' ! s = bS" using bS2 by simp
  have l: "length (matrix ?st') = n" "length (oneStepProbabilities ?st') = n"
    "stateRewards ?st' = None"
    using E(2,3,4) by simp_all
  from eq l h k f g show ?thesis by blast
qed


section \<open>C1: eliminating a state without a self-loop\<close>

text \<open>
  A chain of three states: state 0 moves to state 1 with probability 1/2 (and is lost
  otherwise), state 1 moves to state 2 with probability 1/2 and reaches the target directly
  with probability 1/4, state 2 reaches the target directly. The probabilities of reaching
  the target are 3/8, 3/4 and 1. \<open>noConstraint\<close> is the empty bit vector \<open>BitVector()\<close>.
\<close>

definition noConstraint :: BitVector where
  "noConstraint = \<lparr>bitCount = 0, bucketVector = []\<rparr>"

definition exampleChain :: "rat eliminationState" where
  "exampleChain =
     \<lparr>matrix = [[(1, 1/2)], [(2, 1/2)], []],
      oneStepProbabilities = [0, 1/4, 1],
      backwardTransitions = [[], [(0, 1)], [(1, 1)]],
      stateRewards = None\<rparr>"

definition exampleEliminated :: "rat eliminationState" where
  "exampleEliminated =
     \<lparr>matrix = [[(2, 1/4)], [], []],
      oneStepProbabilities = [1/8, 1/4, 1],
      backwardTransitions = [[], [], [(0, 1)]],
      stateRewards = None\<rparr>"

definition exampleReach :: "nat \<Rightarrow> rat" where
  "exampleReach q = (if q = 0 then 3/8 else if q = 1 then 3/4 else 1)"

lemma example_ready: "eliminationReady exampleChain 1 False noConstraint"
  by (simp add: eliminationReady_def exampleChain_def Let_def numeral_2_eq_2 numeral_3_eq_3)

lemma example_noLoop: "hasSelfLoop (matrix exampleChain) 1 = Some False"
  by (simp add: hasSelfLoop_def getRow_def exampleChain_def)

lemma example_eliminate:
  "eliminateState exampleChain 1 True False noConstraint = Some exampleEliminated"
  by (simp add: eliminateState_def exampleChain_def exampleEliminated_def getRow_def addAt_def
      simplify_def Let_def)

text \<open>
  Claim C1: for every chain, every target set and every state \<open>s\<close> without a self-loop,
  eliminating \<open>s\<close> (rerouting the transitions into \<open>s\<close> over the transitions out of
  \<open>s\<close> and updating the one-step probabilities) leaves the probability of reaching
  the targets unchanged for every remaining predecessor of \<open>s\<close>.

  The probabilities of reaching the targets are a solution \<open>x\<close> of the equations
  \<open>x q = rowValue (row q) x + oneStep q\<close>. \<open>eliminateState\<close> returns, for every value of
  \<open>removeForwardTransitions\<close> and of the constraint; the forward rows of the other states
  that the elimination covers (all of them, if it is not constrained) no longer mention
  \<open>s\<close>; and for every assignment \<open>x\<close> that satisfies the equation of \<open>s\<close> itself, the
  equation of every other state \<open>p\<close> holds after the elimination exactly when it held
  before. So the chain before and the chain after have the same solutions on the remaining
  states, for the predecessors of \<open>s\<close> (whose rows change) as for all others.
\<close>

theorem C1_elimination_preserves_reach_equations:
  fixes st :: "'v::field eliminationState"
  assumes ready: "eliminationReady st s constrained predecessorConstraint"
    and noLoop: "hasSelfLoop (matrix st) s = Some False"
  shows "\<exists>st'. eliminateState st s removeForwardTransitions constrained predecessorConstraint
                 = Some st' \<and>
           length (matrix st') = length (matrix st) \<and>
           length (oneStepProbabilities st') = length (matrix st) \<and>
           (\<forall>p < length (matrix st). p \<noteq> s \<longrightarrow>
              (constrained \<longrightarrow> bv_get predecessorConstraint p = Some True) \<longrightarrow>
              \<not> list_ex (\<lambda>e. fst e = s) (matrix st' ! p)) \<and>
           (\<forall>x. reachEquation (matrix st) (oneStepProbabilities st) x s \<longrightarrow>
              (\<forall>p < length (matrix st). p \<noteq> s \<longrightarrow>
                 reachEquation (matrix st') (oneStepProbabilities st') x p
                   = reachEquation (matrix st) (oneStepProbabilities st) x p))"
proof -
  let ?fwd = "matrix st" and ?bwd = "backwardTransitions st" and ?b = "oneStepProbabilities st"
  let ?n = "length ?fwd"
  let ?rm = removeForwardTransitions and ?pc = predecessorConstraint
  note R = eliminationReady_D[OF ready]
  from noLoop R(1) have "\<not> hasSelfLoopRow s (?fwd ! s)" by (simp add: hasSelfLoop_def getRow_def)
  with R(5)[OF R(1)] have ns: "s \<notin> fst ` set (?fwd ! s)" by (simp add: hasSelfLoopRow_sorted)
  then have L: "findColumn s (?fwd ! s) = None" by (simp add: findColumn_None_iff)
  have row: "filter (\<lambda>e. fst e \<noteq> s) (?fwd ! s) = ?fwd ! s" using ns by (rule filter_no_target)
  have rowS: "scaledRow s ?rm (?fwd ! s) = ?fwd ! s" by (simp add: scaledRow_def L row)
  have bS: "scaledValue s (?fwd ! s) (?b ! s) = ?b ! s" by (simp add: scaledValue_def L)
  from L have "findColumn s (?fwd ! s) \<noteq> Some 1" by simp
  from eliminateState_result[OF ready this, of ?rm] obtain st' where
    E: "eliminateState st s ?rm constrained ?pc = Some st'"
    "length (matrix st') = ?n" "length (oneStepProbabilities st') = ?n"
    "\<forall>q < ?n. q \<noteq> s \<longrightarrow> matrix st' ! q =
              (if eliminated s constrained ?pc (?bwd ! s) q
               then mergeSuccessors s (the (findColumn s (?fwd ! q)))
                      (setColumnValue s 0 (?fwd ! q)) (?fwd ! s)
               else ?fwd ! q)"
    "\<forall>q < ?n. q \<noteq> s \<longrightarrow> oneStepProbabilities st' ! q =
              (if eliminated s constrained ?pc (?bwd ! s) q
               then ?b ! q + the (findColumn s (?fwd ! q)) * (?b ! s)
               else ?b ! q)"
    unfolding rowS bS by blast
  have noS: "\<not> list_ex (\<lambda>e. fst e = s) (matrix st' ! p)"
    if p: "p < ?n" "p \<noteq> s" "constrained \<longrightarrow> bv_get ?pc p = Some True" for p
  proof (cases "eliminated s constrained ?pc (?bwd ! s) p")
    case True
    with E(4) p have "matrix st' ! p = mergeSuccessors s (the (findColumn s (?fwd ! p)))
                      (setColumnValue s 0 (?fwd ! p)) (?fwd ! s)" by simp
    then show ?thesis using mergeSuccessors_drops_target by (fastforce simp add: list_ex_iff)
  next
    case False
    with E(4) p have same: "matrix st' ! p = ?fwd ! p" by simp
    from False p have "p \<notin> fst ` set (?bwd ! s)" by (simp add: eliminated_def)
    with R(8)[OF p(1) R(1)] have "s \<notin> fst ` set (?fwd ! p)" by simp
    with same show ?thesis by (simp add: list_ex_fst)
  qed
  have equiv: "reachEquation (matrix st') (oneStepProbabilities st') x p = reachEquation ?fwd ?b x p"
    if xs: "reachEquation ?fwd ?b x s" and p: "p < ?n" "p \<noteq> s" for x p
  proof (cases "eliminated s constrained ?pc (?bwd ! s) p")
    case True
    then have "p \<in> fst ` set (?bwd ! s)" by (simp add: eliminated_def)
    then have "s \<in> fst ` set (?fwd ! p)" using R(8)[OF p(1) R(1)] by simp
    then obtain m where m: "findColumn s (?fwd ! p) = Some m"
      by (cases "findColumn s (?fwd ! p)") (simp_all add: findColumn_None_iff)
    from E(4,5) True p m have new:
      "matrix st' ! p = mergeSuccessors s m (setColumnValue s 0 (?fwd ! p)) (?fwd ! s)"
      "oneStepProbabilities st' ! p = ?b ! p + m * (?b ! s)" by simp_all
    have "distinct (map fst (?fwd ! p))" using R(5)[OF p(1)] by (simp add: strict_sorted_iff)
    from rowValue_split[OF this, of x s] m
    have old: "rowValue (?fwd ! p) x = rowValue (filter (\<lambda>e. fst e \<noteq> s) (?fwd ! p)) x + m * x s"
      by simp
    have "rowValue (matrix st' ! p) x
            = rowValue (filter (\<lambda>e. fst e \<noteq> s) (?fwd ! p)) x + m * rowValue (?fwd ! s) x"
      by (simp add: new(1) rowValue_mergeSuccessors filter_setColumnValue row)
    moreover from xs have "x s = rowValue (?fwd ! s) x + ?b ! s" by (simp add: reachEquation_def)
    ultimately show ?thesis
      using old new(2) by (simp add: reachEquation_def algebra_simps)
  next
    case False
    with E(4,5) p have "matrix st' ! p = ?fwd ! p" "oneStepProbabilities st' ! p = ?b ! p"
      by simp_all
    then show ?thesis by (simp add: reachEquation_def)
  qed
  have main: "\<forall>x. reachEquation ?fwd ?b x s \<longrightarrow>
              (\<forall>p < ?n. p \<noteq> s \<longrightarrow>
                 reachEquation (matrix st') (oneStepProbabilities st') x p
                   = reachEquation ?fwd ?b x p)"
    using equiv by simp
  have noS': "\<forall>p < ?n. p \<noteq> s \<longrightarrow> (constrained \<longrightarrow> bv_get ?pc p = Some True) \<longrightarrow>
                \<not> list_ex (\<lambda>e. fst e = s) (matrix st' ! p)"
    using noS by blast
  from E(1,2,3) noS' main show ?thesis by blast
qed

theorem C1_elimination_preserves_reach_equations_witness:
  "eliminationReady exampleChain 1 False noConstraint \<and>
   hasSelfLoop (matrix exampleChain) 1 = Some False \<and>
   eliminateState exampleChain 1 True False noConstraint = Some exampleEliminated \<and>
   reachEquation (matrix exampleChain) (oneStepProbabilities exampleChain) exampleReach 1 \<and>
   reachEquation (matrix exampleChain) (oneStepProbabilities exampleChain) exampleReach 0 \<and>
   reachEquation (matrix exampleEliminated) (oneStepProbabilities exampleEliminated) exampleReach 0 \<and>
   \<not> list_ex (\<lambda>e. fst e = 1) (matrix exampleEliminated ! 0)"
proof -
  have e1: "reachEquation (matrix exampleChain) (oneStepProbabilities exampleChain) exampleReach 1"
    by (simp add: reachEquation_def exampleChain_def exampleReach_def rowValue_def)
  have e0: "reachEquation (matrix exampleChain) (oneStepProbabilities exampleChain) exampleReach 0"
    by (simp add: reachEquation_def exampleChain_def exampleReach_def rowValue_def)
  have n: "(0::nat) < length (matrix exampleChain)" by (simp add: exampleChain_def)
  from C1_elimination_preserves_reach_equations[OF example_ready example_noLoop, of True]
    example_eliminate e1 e0 n
  have "reachEquation (matrix exampleEliminated) (oneStepProbabilities exampleEliminated) exampleReach 0
        \<and> \<not> list_ex (\<lambda>e. fst e = 1) (matrix exampleEliminated ! 0)"
    by auto
  with example_ready example_noLoop example_eliminate e1 e0 show ?thesis by blast
qed

section \<open>C2: eliminating a state with a self-loop\<close>








section \<open>The hybrid driver (SparseDtmcEliminationModelChecker.cpp, in src/related-tools.md)\<close>

text \<open>
  \<open>SparseDtmcEliminationModelChecker::treatScc\<close> eliminates the states of a set \<open>scc\<close>. A set
  with more than \<open>maximalSccSize\<close> states is decomposed into strongly connected components;
  the trivial components are eliminated directly and the others are treated recursively.
  A smaller set is eliminated state by state.

  A component of the decomposition (\<open>StronglyConnectedComponent\<close>) is modelled by its states
  in increasing order and its flag \<open>isTrivial\<close>. What the procedure takes from outside this
  file is collected in a context: the decomposition
  (\<open>StronglyConnectedComponentDecomposition\<close>, a function of the subsystem, the forward
  matrix being fixed), the number of rows of the forward matrix, the setting
  \<open>isEliminateEntryStatesLastSet\<close>, and the default arguments of \<open>eliminateState\<close>, whose
  declaration is not among the sources.
\<close>

type_synonym StronglyConnectedComponent = "nat list \<times> bool"

record treatSccContext =
  decompose :: "BitVector \<Rightarrow> StronglyConnectedComponent list"
  rowCount :: nat
  eliminateEntryStatesLast :: bool
  removeForwardTransitionsDefault :: bool
  constrainedDefault :: bool
  predecessorConstraintDefault :: BitVector

text \<open>
  The call \<open>eliminateState(matrix, oneStepProbabilities, state, backwardTransitions,
  stateRewards)\<close> with the default arguments.
\<close>

definition eliminate ::
  "treatSccContext \<Rightarrow> nat \<Rightarrow> 'v::field eliminationState \<Rightarrow> 'v eliminationState option" where
  "eliminate ctx state st =
     eliminateState st state (removeForwardTransitionsDefault ctx) (constrainedDefault ctx)
       (predecessorConstraintDefault ctx)"











subsection \<open>What the specification says the driver does\<close>



subsection \<open>The depth that the driver returns\<close>















section \<open>C5: the threshold of the hybrid driver\<close>













section \<open>C7: simplification of exact weights\<close>

text \<open>
  Modelled from the spec: the simplify operation on the representation of an exact weight
  (\<open>storm::utility::simplify\<close> is not among the sources). A rational or parametric weight
  is a fraction of a numerator and a denominator, integers for a rational number and
  polynomials for a rational function; simplification cancels their common factors. The
  type of the numerator and the denominator is any domain with greatest common divisors.
\<close>

definition simplifyFraction :: "'a::semiring_gcd \<times> 'a \<Rightarrow> 'a \<times> 'a" where
  "simplifyFraction w = (fst w div gcd (fst w) (snd w), snd w div gcd (fst w) (snd w))"

text \<open>
  The value of a fraction of integers. Cancelling the common factors does not change it:
  on the values, simplification is the identity \<open>simplify\<close> of the elimination.
\<close>

definition fractionValue :: "int \<times> int \<Rightarrow> rat" where
  "fractionValue w = of_int (fst w) / of_int (snd w)"

lemma simplifyFraction_value:
  "fractionValue (simplifyFraction w) = simplify (fractionValue w)"
proof (cases "snd w = 0")
  case True
  then show ?thesis by (simp add: fractionValue_def simplifyFraction_def simplify_def)
next
  case False
  let ?g = "gcd (fst w) (snd w)"
  have g: "?g \<noteq> 0" using False by simp
  have n: "fst w = ?g * (fst w div ?g)" and d: "snd w = ?g * (snd w div ?g)" by simp_all
  have "(of_int (fst w) :: rat) / of_int (snd w)
          = of_int (?g * (fst w div ?g)) / of_int (?g * (snd w div ?g))"
    using n d by simp
  also have "\<dots> = of_int (fst w div ?g) / of_int (snd w div ?g)"
    using g by (simp del: dvd_mult_div_cancel)
  finally show ?thesis by (simp add: fractionValue_def simplifyFraction_def simplify_def)
qed

text \<open>
  Claim C7: applying the simplify operation twice to a rational or parametric weight
  yields the same result as applying it once, on the representation of the weight (where
  it cancels the common factors) as on its value (where it changes nothing, as for a
  floating-point weight).
\<close>

theorem C7_simplify_idempotent:
  "simplifyFraction (simplifyFraction w) = simplifyFraction w \<and>
   simplify (simplify v) = simplify v"
proof (cases "fst w = 0 \<and> snd w = 0")
  case True
  then show ?thesis by (simp add: simplifyFraction_def simplify_def)
next
  case False
  then have "coprime (fst w div gcd (fst w) (snd w)) (snd w div gcd (fst w) (snd w))"
    by (intro div_gcd_coprime) auto
  then have "gcd (fst w div gcd (fst w) (snd w)) (snd w div gcd (fst w) (snd w)) = 1"
    by (simp add: coprime_iff_gcd_eq_1)
  then show ?thesis by (simp add: simplifyFraction_def simplify_def)
qed

end
